theory Spec2Isabelle
  imports Main
begin

section \<open>Python values and errors\<close>

text \<open>
  The notebooks are Python 3 (kernel \<open>python3\<close>). Python integers are unbounded, so they
  are HOL \<open>int\<close>s. Every exception the embedded code can raise is a constructor of
  \<open>error\<close>; a function that can raise returns \<open>error + 'a\<close>, with \<open>Inl\<close> for the raise.
  \<open>AssertionError node parent\<close> carries the two values formatted into the message
  \<open>"%s should have happened after %s" % (node, parent)\<close>.
\<close>

datatype error =
    ValueError
  | KeyError
  | TypeError
  | NetworkXError
  | CycleError
  | AssertionError int int

section \<open>Remote Iteration: \<open>load_data\<close>\<close>

text \<open>
  \<open>range(start, stop, step)\<close>: a zero step raises \<open>ValueError\<close>; otherwise the
  sequence holds \<open>start + k * step\<close> for \<open>k\<close> below the length, which CPython computes as
  \<open>(hi - lo - 1) // step + 1\<close> when \<open>lo < hi\<close> and \<open>0\<close> otherwise (for a negative step
  with the bounds swapped and the step negated).
\<close>

definition range_len :: "int \<Rightarrow> int \<Rightarrow> int \<Rightarrow> nat" where
  "range_len lo hi step = (if lo < hi then nat ((hi - lo - 1) div step + 1) else 0)"

definition py_range :: "int \<Rightarrow> int \<Rightarrow> int \<Rightarrow> error + int list" where
  "py_range start stop step =
     (if step = 0 then Inl ValueError
      else if 0 < step then
        Inr (map (\<lambda>k. start + int k * step) [0..<range_len start stop step])
      else
        Inr (map (\<lambda>k. start + int k * step) [0..<range_len stop start (- step)]))"

text \<open>
  \<^verbatim>\<open>
  def load_data(arg):
      global data
      s =  4-arg
      step = arg+1
      data = range(s, s+4*step**2, step)
      return 'data'
  \<close>
  The function assigns the global \<open>data\<close> and returns its name. The model returns the
  pair of the returned name and the new value of the global.
\<close>

definition load_data :: "int \<Rightarrow> error + (string \<times> int list)" where
  "load_data arg =
     (let s = 4 - arg;
          step = arg + 1
      in case py_range s (s + 4 * step ^ 2) step of
           Inl e \<Rightarrow> Inl e
         | Inr data \<Rightarrow> Inr (''data'', data))"

section \<open>DAG Dependencies: the graph\<close>

text \<open>
  The notebook holds its graph in a NetworkX \<open>DiGraph\<close>. NetworkX is a library the
  notebook imports; the operations the notebook calls are modelled here by their
  documented behaviour. A \<open>DiGraph\<close> keeps its nodes and its edges in dictionaries: each
  node and each edge occurs once, in insertion order, and both ends of an edge are nodes.
  \<^item> \<open>G.add_node(n)\<close> adds \<open>n\<close> unless it is there;
  \<^item> \<open>G.add_edge(u, v)\<close> adds the missing ends, then the edge unless it is there (a
    \<open>DiGraph\<close> holds no parallel edges);
  \<^item> \<open>G.remove_edge(u, v)\<close> removes the edge and raises \<open>NetworkXError\<close> when there is
    none;
  \<^item> \<open>G.predecessors(n)\<close> lists the sources of the edges into \<open>n\<close> and raises
    \<open>NetworkXError\<close> when \<open>n\<close> is not a node;
  \<^item> \<open>nx.is_directed_acyclic_graph(G)\<close> tells whether the edge relation has no cycle.
\<close>

record digraph =
  Gnodes :: "int list"
  Gedges :: "(int \<times> int) list"

definition DiGraph :: digraph where
  "DiGraph = \<lparr>Gnodes = [], Gedges = []\<rparr>"

definition add_node :: "digraph \<Rightarrow> int \<Rightarrow> digraph" where
  "add_node G n = (if n \<in> set (Gnodes G) then G else G\<lparr>Gnodes := Gnodes G @ [n]\<rparr>)"

definition add_edge :: "digraph \<Rightarrow> int \<Rightarrow> int \<Rightarrow> digraph" where
  "add_edge G u v =
     (let G' = add_node (add_node G u) v
      in if (u, v) \<in> set (Gedges G') then G' else G'\<lparr>Gedges := Gedges G' @ [(u, v)]\<rparr>)"

definition remove_edge :: "digraph \<Rightarrow> int \<Rightarrow> int \<Rightarrow> error + digraph" where
  "remove_edge G u v =
     (if (u, v) \<in> set (Gedges G) then Inr (G\<lparr>Gedges := removeAll (u, v) (Gedges G)\<rparr>)
      else Inl NetworkXError)"

definition predecessors :: "digraph \<Rightarrow> int \<Rightarrow> error + int list" where
  "predecessors G n =
     (if n \<in> set (Gnodes G) then Inr (map fst (filter (\<lambda>e. snd e = n) (Gedges G)))
      else Inl NetworkXError)"

definition is_directed_acyclic_graph :: "digraph \<Rightarrow> bool" where
  "is_directed_acyclic_graph G = acyclic (set (Gedges G))"

text \<open>The representation invariant of a \<open>DiGraph\<close>.\<close>

definition wf_digraph :: "digraph \<Rightarrow> bool" where
  "wf_digraph G =
     (distinct (Gnodes G) \<and> distinct (Gedges G) \<and>
      (\<forall>e \<in> set (Gedges G). fst e \<in> set (Gnodes G) \<and> snd e \<in> set (Gnodes G)))"

text \<open>
  The sample graph of the notebook: five nodes, \<open>1\<close> and \<open>2\<close> depend on \<open>0\<close>, \<open>3\<close>
  depends on \<open>1\<close> and \<open>2\<close>, \<open>4\<close> depends on \<open>1\<close>.
  \<^verbatim>\<open>
  G = nx.DiGraph()
  map(G.add_node, range(5))
  G.add_edge(0,1); G.add_edge(0,2); G.add_edge(1,3); G.add_edge(2,3); G.add_edge(1,4)
  \<close>
  In Python 3 the \<open>map\<close> is lazy and never consumed, so the nodes are added by
  \<open>add_edge\<close>; the graph is the same had \<open>add_node\<close> run first.
\<close>

definition diamond :: digraph where
  "diamond =
     add_edge (add_edge (add_edge (add_edge (add_edge DiGraph 0 1) 0 2) 1 3) 2 3) 1 4"

section \<open>DAG Dependencies: \<open>random_dag\<close>\<close>

text \<open>
  \<^verbatim>\<open>
  def random_dag(nodes, edges):
      G = nx.DiGraph()
      for i in range(nodes):
          G.add_node(i)
      while edges > 0:
          a = randint(0,nodes-1)
          b=a
          while b==a:
              b = randint(0,nodes-1)
          G.add_edge(a,b)
          if nx.is_directed_acyclic_graph(G):
              edges -= 1
          else:
              # we closed a loop!
              G.remove_edge(a,b)
      return G
  \<close>
  The random source is an input of the model: \<open>draws\<close> lists the values the successive
  calls of \<open>randint\<close> return, and each call takes the next one. \<open>randint(lo, hi)\<close> raises
  \<open>ValueError\<close> on an empty range. Both loops can run forever (a run of draws that never
  leaves the inner loop, or that only proposes edges closing a cycle), so a run is
  \<open>None\<close> when the draws are used up before the function returns; \<open>Some (Inl e)\<close> is a
  raise and \<open>Some (Inr G)\<close> the returned graph.
\<close>

fun randint :: "int \<Rightarrow> int \<Rightarrow> int list \<Rightarrow> (error + int \<times> int list) option" where
  "randint lo hi draws =
     (if hi < lo then Some (Inl ValueError)
      else case draws of [] \<Rightarrow> None | d # rest \<Rightarrow> Some (Inr (d, rest)))"

lemma randint_shorter:
  "randint lo hi draws = Some (Inr (d, rest)) \<Longrightarrow> length rest < length draws"
  by (auto split: if_splits list.splits)

text \<open>The inner loop \<open>while b==a: b = randint(0,nodes-1)\<close>, entered with \<open>b = a\<close>.\<close>

function redraw :: "int \<Rightarrow> int \<Rightarrow> int \<Rightarrow> int list \<Rightarrow> (error + int \<times> int list) option" where
  "redraw nodes a b draws =
     (if b = a then
        (case randint 0 (nodes - 1) draws of
           None \<Rightarrow> None
         | Some (Inl e) \<Rightarrow> Some (Inl e)
         | Some (Inr (b', rest)) \<Rightarrow> redraw nodes a b' rest)
      else Some (Inr (b, draws)))"
  by pat_completeness auto
termination
  by (relation "measure (\<lambda>(nodes, a, b, draws). length draws)")
     (auto dest: randint_shorter simp del: randint.simps)

text \<open>One iteration of the outer loop: the new graph, the new counter, the draws left.\<close>

definition loop_body ::
  "int \<Rightarrow> digraph \<Rightarrow> int \<Rightarrow> int list \<Rightarrow> (error + digraph \<times> int \<times> int list) option" where
  "loop_body nodes G edges draws =
     (case randint 0 (nodes - 1) draws of
        None \<Rightarrow> None
      | Some (Inl e) \<Rightarrow> Some (Inl e)
      | Some (Inr (a, rest)) \<Rightarrow>
          (case redraw nodes a a rest of
             None \<Rightarrow> None
           | Some (Inl e) \<Rightarrow> Some (Inl e)
           | Some (Inr (b, rest')) \<Rightarrow>
               (let G' = add_edge G a b
                in if is_directed_acyclic_graph G' then Some (Inr (G', edges - 1, rest'))
                   else (case remove_edge G' a b of
                           Inl e \<Rightarrow> Some (Inl e)
                         | Inr G'' \<Rightarrow> Some (Inr (G'', edges, rest'))))))"

lemma redraw_shorter:
  "redraw nodes a b draws = Some (Inr (b', rest)) \<Longrightarrow> length rest \<le> length draws"
proof (induction nodes a b draws rule: redraw.induct)
  case (1 nodes a b draws)
  show ?case
  proof (cases "b = a")
    case True
    with "1.prems" obtain c mid where r: "randint 0 (nodes - 1) draws = Some (Inr (c, mid))"
      and rec: "redraw nodes a c mid = Some (Inr (b', rest))"
      by (simp split: option.splits sum.splits prod.splits)
    from "1.IH" [OF True r refl refl rec] randint_shorter [OF r] show ?thesis by simp
  next
    case False
    with "1.prems" show ?thesis by simp
  qed
qed

lemma loop_body_shorter:
  "loop_body nodes G edges draws = Some (Inr (G', edges', rest)) \<Longrightarrow> length rest < length draws"
  unfolding loop_body_def
  by (auto split: option.splits sum.splits prod.splits if_splits simp: Let_def
      simp del: randint.simps redraw.simps dest!: randint_shorter redraw_shorter)

function edge_loop :: "int \<Rightarrow> digraph \<Rightarrow> int \<Rightarrow> int list \<Rightarrow> (error + digraph) option" where
  "edge_loop nodes G edges draws =
     (if edges > 0 then
        (case loop_body nodes G edges draws of
           None \<Rightarrow> None
         | Some (Inl e) \<Rightarrow> Some (Inl e)
         | Some (Inr (G', edges', rest)) \<Rightarrow> edge_loop nodes G' edges' rest)
      else Some (Inr G))"
  by pat_completeness auto
termination
  by (relation "measure (\<lambda>(nodes, G, edges, draws). length draws)")
     (auto dest: loop_body_shorter)

definition random_dag :: "int \<Rightarrow> int \<Rightarrow> int list \<Rightarrow> (error + digraph) option" where
  "random_dag nodes edges draws =
     edge_loop nodes (foldl add_node DiGraph [0..nodes - 1]) edges draws"

text \<open>
  The states the outer loop holds at its head: the state on entry, and the state after
  each completed iteration (graph, counter, draws left).
\<close>

inductive loop_state :: "int \<Rightarrow> int \<Rightarrow> int list \<Rightarrow> digraph \<times> int \<times> int list \<Rightarrow> bool"
  for nodes :: int and edges :: int and draws :: "int list" where
  entry: "loop_state nodes edges draws (foldl add_node DiGraph [0..nodes - 1], edges, draws)"
| iteration:
    "loop_state nodes edges draws (G, e, ds) \<Longrightarrow> e > 0 \<Longrightarrow>
     loop_body nodes G e ds = Some (Inr s') \<Longrightarrow>
     loop_state nodes edges draws s'"

section \<open>DAG Dependencies: \<open>validate_tree\<close>\<close>

text \<open>
  \<^verbatim>\<open>
  def validate_tree(G, results):
      for node in G:
          started = results[node].metadata.started
          for parent in G.predecessors(node):
              finished = results[parent].metadata.completed
              assert started > finished, "%s should have happened after %s" % (node, parent)
  \<close>
  \<open>results\<close> is a dictionary from nodes to the handles of their tasks; of a handle the
  function reads only the two time stamps of its metadata, each \<open>None\<close> until the task
  has started or completed. A time stamp is a point on a discrete clock, an \<open>int\<close> here.
  A missing key raises \<open>KeyError\<close>; comparing with \<open>None\<close> raises \<open>TypeError\<close>. The
  function assigns neither to \<open>G\<close> nor to \<open>results\<close>; the model returns both as they
  are on return.
\<close>

record metadata =
  started :: "int option"
  completed :: "int option"

type_synonym results = "int \<rightharpoonup> metadata"

text \<open>The inner loop over the parents of \<open>node\<close>, \<open>st\<close> being the value of \<open>started\<close>.\<close>

fun check_parents :: "results \<Rightarrow> int \<Rightarrow> int option \<Rightarrow> int list \<Rightarrow> error + unit" where
  "check_parents results node st [] = Inr ()"
| "check_parents results node st (parent # ps) =
     (case results parent of
        None \<Rightarrow> Inl KeyError
      | Some r \<Rightarrow>
          (case (st, completed r) of
             (Some s, Some finished) \<Rightarrow>
               if s > finished then check_parents results node st ps
               else Inl (AssertionError node parent)
           | _ \<Rightarrow> Inl TypeError))"

fun validate_nodes :: "digraph \<Rightarrow> results \<Rightarrow> int list \<Rightarrow> error + unit" where
  "validate_nodes G results [] = Inr ()"
| "validate_nodes G results (node # ns) =
     (case results node of
        None \<Rightarrow> Inl KeyError
      | Some r \<Rightarrow>
          (case predecessors G node of
             Inl e \<Rightarrow> Inl e
           | Inr ps \<Rightarrow>
               (case check_parents results node (started r) ps of
                  Inl e \<Rightarrow> Inl e
                | Inr _ \<Rightarrow> validate_nodes G results ns)))"



definition late :: "results \<Rightarrow> int \<Rightarrow> int \<Rightarrow> bool" where
  "late results parent node =
     (case (results node, results parent) of
        (Some rn, Some rp) \<Rightarrow>
          (case (started rn, completed rp) of
             (Some s, Some finished) \<Rightarrow> \<not> s > finished
           | _ \<Rightarrow> False)
      | _ \<Rightarrow> False)"




section \<open>DAG Dependencies: the topological sequence\<close>

text \<open>
  The notebook iterates over \<open>nx.topological_sort(G)\<close>, a function of the NetworkX
  library. The specification describes the sequencer it stands for (Graph Store and
  Topological Sequencer); that description is what is modelled here.
\<close>

text \<open>
  Modelled from the spec: the Graph Store's \<open>predecessorsOf(id)\<close>, the direct
  dependencies of a node (the sources of the edges into it). The code that answers it is
  not in the notebooks.
\<close>

definition predecessorsOf :: "digraph \<Rightarrow> int \<Rightarrow> int list" where
  "predecessorsOf G n = map fst (filter (\<lambda>e. snd e = n) (Gedges G))"

text \<open>
  Modelled from the spec: the Graph Store's \<open>successorsOf(id)\<close>, the direct dependents
  of a node (the targets of the edges out of it); no code of the notebooks answers it.
\<close>

definition successorsOf :: "digraph \<Rightarrow> int \<Rightarrow> int list" where
  "successorsOf G n = map snd (filter (\<lambda>e. fst e = n) (Gedges G))"

text \<open>
  Modelled from the spec: the in-degree counts of Kahn's algorithm, "seeded from the
  frozen graph" (the sequencer, \<open>nx.topological_sort\<close> in the notebook, is library code
  that the notebooks do not hold).
\<close>

definition in_degree :: "digraph \<Rightarrow> int \<Rightarrow> nat" where
  "in_degree G n = length (predecessorsOf G n)"

text \<open>
  Modelled from the spec: "decrement successors' in-degree", for one successor (a step
  of the sequencer that the notebooks do not hold).
\<close>

definition decrement :: "(int \<Rightarrow> nat) \<Rightarrow> int \<Rightarrow> (int \<Rightarrow> nat)" where
  "decrement indeg s = indeg(s := indeg s - 1)"

lemma find_shorter:
  "find P xs = Some x \<Longrightarrow> length (remove1 x xs) < length xs"
  by (auto simp: find_Some_iff length_remove1 in_set_conv_nth intro!: diff_less)

text \<open>
  Modelled from the spec: the loop of Kahn's algorithm, "repeatedly take nodes with
  in-degree zero (tie-break: stable by insertion order), decrement successors'
  in-degree, append to output". \<open>pending\<close> holds the nodes not yet emitted, in insertion
  order; the node taken is the first of them whose count is zero. The notebooks call
  \<open>nx.topological_sort\<close> for it and do not hold its code.
\<close>

function kahn :: "digraph \<Rightarrow> (int \<Rightarrow> nat) \<Rightarrow> int list \<Rightarrow> int list \<Rightarrow> int list" where
  "kahn G indeg pending out =
     (case find (\<lambda>n. indeg n = 0) pending of
        None \<Rightarrow> out
      | Some n \<Rightarrow>
          kahn G (foldl decrement indeg (successorsOf G n)) (remove1 n pending) (out @ [n]))"
  by pat_completeness auto
termination
  by (relation "measure (\<lambda>(G, indeg, pending, out). length pending)")
     (auto dest: find_shorter)

text \<open>
  Modelled from the spec: the Topological Sequencer's \<open>sequence()\<close>, which "fails with
  \<open>CycleError\<close> if fewer nodes are emitted than exist". It stands for the
  \<open>nx.topological_sort(G)\<close> of the notebook, whose code is not in the notebooks.
\<close>

definition sequence :: "digraph \<Rightarrow> error + int list" where
  "sequence G =
     (let out = kahn G (in_degree G) (Gnodes G) []
      in if length out < length (Gnodes G) then Inl CycleError else Inr out)"

text \<open>\<open>precedes xs a b\<close>: some occurrence of \<open>a\<close> in \<open>xs\<close> comes before one of \<open>b\<close>.\<close>

fun precedes :: "int list \<Rightarrow> int \<Rightarrow> int \<Rightarrow> bool" where
  "precedes [] a b = False"
| "precedes (x # xs) a b = ((x = a \<and> b \<in> set xs) \<or> precedes xs a b)"

text \<open>
  The invariant of the loop: the pending and the emitted nodes split the nodes of the
  graph, the count of a pending node is the number of its pending predecessors, and
  every edge into an emitted node comes from a node emitted before it.
\<close>

definition kahn_inv :: "digraph \<Rightarrow> (int \<Rightarrow> nat) \<Rightarrow> int list \<Rightarrow> int list \<Rightarrow> bool" where
  "kahn_inv G indeg pending out =
     (distinct pending \<and> distinct out \<and> set pending \<inter> set out = {} \<and>
      set pending \<union> set out = set (Gnodes G) \<and>
      (\<forall>m \<in> set pending. indeg m = card {p \<in> set pending. (p, m) \<in> set (Gedges G)}) \<and>
      (\<forall>e \<in> set (Gedges G). snd e \<in> set out \<longrightarrow> precedes out (fst e) (snd e)))"

section \<open>DAG Dependencies: the submission loop\<close>

text \<open>
  \<^verbatim>\<open>
  jobs = {}
  for node in G:
       jobs[node] = randomwait

  results = {}
  for node in nx.topological_sort(G):
      deps = [ results[n] for n in G.predecessors(node) ]
      with view.temp_flags(after=deps, block=False):
           results[node] = view.apply_async(jobs[node])
  \<close>
  \<open>view.apply_async\<close> queues a task and returns its handle at once. The model keeps
  the queue of the view as the list of the tasks submitted so far; a handle is the
  position of its task in that list, and a task records the function submitted and the
  handles given as \<open>after\<close>. Reading a key a dictionary does not hold raises \<open>KeyError\<close>.
\<close>

datatype job = randomwait

record task =
  func :: job
  after :: "nat list"

type_synonym view = "task list"

type_synonym handles = "int \<rightharpoonup> nat"

definition apply_async :: "view \<Rightarrow> job \<Rightarrow> nat list \<Rightarrow> nat \<times> view" where
  "apply_async view f deps = (length view, view @ [\<lparr>func = f, after = deps\<rparr>])"

definition make_jobs :: "digraph \<Rightarrow> (int \<rightharpoonup> job)" where
  "make_jobs G = foldl (\<lambda>jobs node. jobs(node \<mapsto> randomwait)) Map.empty (Gnodes G)"

text \<open>The list comprehension \<open>[ results[n] for n in ... ]\<close>.\<close>

fun lookup_deps :: "handles \<Rightarrow> int list \<Rightarrow> error + nat list" where
  "lookup_deps results [] = Inr []"
| "lookup_deps results (n # ns) =
     (case results n of
        None \<Rightarrow> Inl KeyError
      | Some r \<Rightarrow>
          (case lookup_deps results ns of
             Inl e \<Rightarrow> Inl e
           | Inr rs \<Rightarrow> Inr (r # rs)))"

fun submit_loop ::
  "digraph \<Rightarrow> (int \<rightharpoonup> job) \<Rightarrow> handles \<times> view \<Rightarrow> int list \<Rightarrow> error + handles \<times> view" where
  "submit_loop G jobs (results, view) [] = Inr (results, view)"
| "submit_loop G jobs (results, view) (node # rest) =
     (case predecessors G node of
        Inl e \<Rightarrow> Inl e
      | Inr ps \<Rightarrow>
          (case lookup_deps results ps of
             Inl e \<Rightarrow> Inl e
           | Inr deps \<Rightarrow>
               (case jobs node of
                  None \<Rightarrow> Inl KeyError
                | Some f \<Rightarrow>
                    (case apply_async view f deps of
                       (r, view') \<Rightarrow> submit_loop G jobs (results(node \<mapsto> r), view') rest))))"

text \<open>The two cells together, the loop running over the topological sequence.\<close>

definition submit_jobs :: "digraph \<Rightarrow> error + handles \<times> view" where
  "submit_jobs G =
     (case sequence G of
        Inl e \<Rightarrow> Inl e
      | Inr order \<Rightarrow> submit_loop G (make_jobs G) (Map.empty, []) order)"

section \<open>The dependency-aware scheduler of the specification\<close>

text \<open>
  The notebook hands its tasks to the scheduler of the \<open>ipyparallel\<close> library and
  describes in prose what happens when a task fails. The scheduler itself is not in the
  notebooks; the definitions of this section follow the specification's Task State
  Tracker, Outcome Propagator and Dependency-Aware Dispatcher.
\<close>

text \<open>
  Modelled from the spec: the \<open>TaskState\<close> enumeration of the data model (the states
  are those of the scheduler, which the notebooks do not hold).
\<close>

datatype TaskState = Pending | Ready | Running | Succeeded | Failed | Unreachable

text \<open>
  Modelled from the spec: the \<open>DependencyPolicy\<close> enumeration of the data model (the
  notebook only ever uses the scheduler's default, \<open>success=True, failure=False\<close>, that
  is \<open>ALL_SUCCESS\<close>).
\<close>

datatype DependencyPolicy = ALL_SUCCESS | ANY_SUCCESS | ALL_DONE | ANY_DONE

text \<open>The Task State Tracker's storage: the current state of every node.\<close>

type_synonym tracker = "int \<Rightarrow> TaskState"

text \<open>
  Modelled from the spec: a terminal state is \<open>Succeeded\<close>, \<open>Failed\<close> or \<open>Unreachable\<close>
  (glossary); the tracker it belongs to is not in the notebooks.
\<close>

definition terminal :: "TaskState \<Rightarrow> bool" where
  "terminal st = (st = Succeeded \<or> st = Failed \<or> st = Unreachable)"

text \<open>
  Modelled from the spec: the tracker's \<open>allTerminal()\<close>, true when every node is in a
  terminal state (the notebook's \<open>view.wait()\<close> waits for it inside the library).
\<close>

definition allTerminal :: "digraph \<Rightarrow> tracker \<Rightarrow> bool" where
  "allTerminal G states = (\<forall>n \<in> set (Gnodes G). terminal (states n))"

text \<open>
  Modelled from the spec: what a policy asks of one dependency: that it succeeded, or,
  under \<open>ALL_DONE\<close> and \<open>ANY_DONE\<close>, where "succeeded" is replaced with "reached any
  terminal state", that it is terminal. (Part of the Outcome Propagator, which is not
  in the notebooks.)
\<close>

definition satisfied :: "DependencyPolicy \<Rightarrow> TaskState \<Rightarrow> bool" where
  "satisfied p st =
     (case p of
        ALL_SUCCESS \<Rightarrow> st = Succeeded
      | ANY_SUCCESS \<Rightarrow> st = Succeeded
      | ALL_DONE \<Rightarrow> terminal st
      | ANY_DONE \<Rightarrow> terminal st)"

text \<open>
  Modelled from the spec: what \<open>resolve(completedNode)\<close> of the Outcome Propagator
  (not in the notebooks) does to one direct successor \<open>s\<close>. A successor that is no
  longer \<open>Pending\<close> is left alone. Under \<open>ALL_SUCCESS\<close>: "if
  completedNode failed or is unreachable, \<open>s\<close> becomes \<open>Unreachable\<close> immediately. If all
  dependencies of \<open>s\<close> have now succeeded, \<open>s\<close> becomes \<open>Ready\<close>." Under \<open>ANY_SUCCESS\<close>: "if
  any dependency of \<open>s\<close> has succeeded, \<open>s\<close> becomes \<open>Ready\<close> immediately". The two other
  policies are the same two rules read with \<open>satisfied\<close>, word for word as the contract
  has them; only the \<open>ALL_SUCCESS\<close> rule is used by the theorems below.
\<close>

definition resolve_successor ::
  "digraph \<Rightarrow> (int \<Rightarrow> DependencyPolicy) \<Rightarrow> int \<Rightarrow> tracker \<Rightarrow> int \<Rightarrow> tracker" where
  "resolve_successor G policy completedNode states s =
     (if states s \<noteq> Pending then states
      else if policy s = ALL_SUCCESS \<or> policy s = ALL_DONE then
        (if states completedNode = Failed \<or> states completedNode = Unreachable
           then states(s := Unreachable)
         else if \<forall>d \<in> set (predecessorsOf G s). satisfied (policy s) (states d)
           then states(s := Ready)
         else states)
      else
        (if \<exists>d \<in> set (predecessorsOf G s). satisfied (policy s) (states d)
           then states(s := Ready)
         else states))"

text \<open>
  Modelled from the spec: the Outcome Propagator's \<open>resolve(completedNode)\<close>, which
  "inspects every direct successor \<open>s\<close> of \<open>completedNode\<close>"; the notebooks hold no code
  for it.
\<close>

definition resolve :: "digraph \<Rightarrow> (int \<Rightarrow> DependencyPolicy) \<Rightarrow> tracker \<Rightarrow> int \<Rightarrow> tracker" where
  "resolve G policy states completedNode =
     foldl (resolve_successor G policy completedNode) states (successorsOf G completedNode)"

text \<open>
  Modelled from the spec: the tracker when the Dispatcher's run begins (the Dispatcher
  is not in the notebooks). Every node is \<open>Pending\<close>, but "a node with zero
  dependencies is immediately \<open>Ready\<close>".
\<close>

definition initial :: "digraph \<Rightarrow> tracker" where
  "initial G = (\<lambda>n. if n \<in> set (Gnodes G) \<and> predecessorsOf G n = [] then Ready else Pending)"

text \<open>
  Modelled from the spec: the completion notification of the worker pool (an external
  collaborator, not in the notebooks), reduced to its \<open>success\<close> flag. \<open>fails n\<close>
  tells whether the job of node \<open>n\<close> fails when it runs.
\<close>

definition outcome :: "(int \<Rightarrow> bool) \<Rightarrow> int \<Rightarrow> TaskState" where
  "outcome fails n = (if fails n then Failed else Succeeded)"

text \<open>
  Modelled from the spec: the states the Dispatcher's \<open>run\<close> passes through (the
  notebooks hold no dispatcher; they submit to the library's). Tasks run
  concurrently, so the run is a relation: the trackers reachable from the initial one
  by the events of the run, in any order the workers produce them.
  \<^item> \<open>started\<close>: a worker takes up a submitted (\<open>Ready\<close>) task;
  \<^item> \<open>completed\<close>: a running task completes, and "on completion of any submitted task,
    the Dispatcher invokes the Outcome Propagator";
  \<^item> \<open>propagated\<close>: the Propagator is also applied to a node that became \<open>Unreachable\<close>
    (its contract covers a \<open>completedNode\<close> that "failed or is unreachable", and the
    concurrency model asks for "transitive propagation across multiple dependency hops").
  The run returns when \<open>allTerminal\<close> holds.
\<close>

inductive dispatch ::
  "digraph \<Rightarrow> (int \<Rightarrow> DependencyPolicy) \<Rightarrow> (int \<Rightarrow> bool) \<Rightarrow> tracker \<Rightarrow> bool"
  for G :: digraph and policy :: "int \<Rightarrow> DependencyPolicy" and fails :: "int \<Rightarrow> bool" where
  frozen: "dispatch G policy fails (initial G)"
| started:
    "dispatch G policy fails states \<Longrightarrow> n \<in> set (Gnodes G) \<Longrightarrow> states n = Ready \<Longrightarrow>
     dispatch G policy fails (states(n := Running))"
| completed:
    "dispatch G policy fails states \<Longrightarrow> n \<in> set (Gnodes G) \<Longrightarrow> states n = Running \<Longrightarrow>
     dispatch G policy fails (resolve G policy (states(n := outcome fails n)) n)"
| propagated:
    "dispatch G policy fails states \<Longrightarrow> n \<in> set (Gnodes G) \<Longrightarrow> states n = Unreachable \<Longrightarrow>
     dispatch G policy fails (resolve G policy states n)"

text \<open>
  One run, as the list of its events: \<open>replay\<close> follows the events from a tracker and
  is \<open>None\<close> when an event is not enabled. It computes the trackers of \<open>dispatch\<close>.
\<close>

datatype event = Start int | Complete int | Propagate int

fun replay ::
  "digraph \<Rightarrow> (int \<Rightarrow> DependencyPolicy) \<Rightarrow> (int \<Rightarrow> bool) \<Rightarrow> tracker \<Rightarrow> event list
     \<Rightarrow> tracker option" where
  "replay G policy fails states [] = Some states"
| "replay G policy fails states (Start n # es) =
     (if n \<in> set (Gnodes G) \<and> states n = Ready
      then replay G policy fails (states(n := Running)) es else None)"
| "replay G policy fails states (Complete n # es) =
     (if n \<in> set (Gnodes G) \<and> states n = Running
      then replay G policy fails (resolve G policy (states(n := outcome fails n)) n) es
      else None)"
| "replay G policy fails states (Propagate n # es) =
     (if n \<in> set (Gnodes G) \<and> states n = Unreachable
      then replay G policy fails (resolve G policy states n) es else None)"

text \<open>The policy that is \<open>ALL_SUCCESS\<close> on every node, and the run in which only \<open>f\<close> fails.\<close>

definition strict :: "int \<Rightarrow> DependencyPolicy" where
  "strict n = ALL_SUCCESS"

definition only :: "int \<Rightarrow> int \<Rightarrow> bool" where
  "only f n = (n = f)"

text \<open>
  The invariant of a run under \<open>ALL_SUCCESS\<close>: a node succeeded or failed as its job
  did; a node that was ever made ready has only succeeded predecessors; an unreachable
  node has a failed or unreachable predecessor.
\<close>

definition strict_inv :: "digraph \<Rightarrow> (int \<Rightarrow> bool) \<Rightarrow> tracker \<Rightarrow> bool" where
  "strict_inv G fails states =
     ((\<forall>n. states n = Succeeded \<longrightarrow> \<not> fails n) \<and>
      (\<forall>n. states n = Failed \<longrightarrow> fails n) \<and>
      (\<forall>n p. states n \<noteq> Pending \<longrightarrow> states n \<noteq> Unreachable \<longrightarrow>
             p \<in> set (predecessorsOf G n) \<longrightarrow> states p = Succeeded) \<and>
      (\<forall>n. states n = Unreachable \<longrightarrow>
             (\<exists>p \<in> set (predecessorsOf G n). states p = Failed \<or> states p = Unreachable)))"

text \<open>
  What \<open>resolve_successor\<close> makes of a \<open>Pending\<close> successor under \<open>ALL_SUCCESS\<close>, as a
  function of the tracker on entry to \<open>resolve\<close>.
\<close>

definition decide :: "digraph \<Rightarrow> tracker \<Rightarrow> int \<Rightarrow> int \<Rightarrow> TaskState" where
  "decide G states c s =
     (if states c = Failed \<or> states c = Unreachable then Unreachable
      else if \<forall>d \<in> set (predecessorsOf G s). states d = Succeeded then Ready
      else Pending)"

text \<open>
  A second invariant of a run under \<open>ALL_SUCCESS\<close>: a node that is still \<open>Pending\<close> has
  a predecessor that has not succeeded, and no predecessor that failed.
\<close>

definition live_inv :: "digraph \<Rightarrow> tracker \<Rightarrow> bool" where
  "live_inv G states =
     (\<forall>n \<in> set (Gnodes G). states n = Pending \<longrightarrow>
        (\<exists>p. (p, n) \<in> set (Gedges G) \<and> states p \<noteq> Succeeded) \<and>
        (\<forall>p. (p, n) \<in> set (Gedges G) \<longrightarrow> states p \<noteq> Failed))"









section \<open>Properties of \<open>load_data\<close>\<close>

lemma sorted_wrt_affine:
  "0 < step \<Longrightarrow> sorted_wrt (<) (map (\<lambda>k. start + int k * step) [0..<n])"
  by (simp add: sorted_wrt_map sorted_wrt_iff_nth_less)

lemma range_len_load:
  assumes "0 \<le> arg"
  shows "range_len (4 - arg) (4 - arg + 4 * (arg + 1) ^ 2) (arg + 1) = nat (4 * (arg + 1))"
proof -
  define t where "t = arg + 1"
  have t: "0 < t" using assms by (simp add: t_def)
  have e: "4 * t ^ 2 - 1 = (t - 1) + (4 * t - 1) * t"
    by (simp add: power2_eq_square algebra_simps)
  have "(4 * t ^ 2 - 1) div t = 4 * t - 1"
    unfolding e using t by (simp add: div_pos_pos_trivial)
  then show ?thesis using t unfolding range_len_def t_def[symmetric]
    by simp
qed

text \<open>
  Claim C9. For every integer argument \<open>arg \<ge> 0\<close>, \<open>load_data\<close> returns the string
  \<open>'data'\<close>, and the dataset it binds, \<open>range(4-arg, 4-arg + 4*(arg+1)^2, arg+1)\<close>, is
  strictly increasing, hence sorted, as its docstring requires. (It has \<open>4*(arg+1)\<close>
  elements.)
\<close>

theorem load_data_sorted:
  "0 \<le> arg \<Longrightarrow>
     \<exists>data. load_data arg = Inr (''data'', data) \<and> sorted_wrt (<) data \<and> sorted data
        \<and> int (length data) = 4 * (arg + 1)"
  by (simp add: load_data_def py_range_def Let_def range_len_load sorted_wrt_affine
      strict_sorted_imp_sorted)

theorem load_data_sorted_witness:
  "load_data 1 = Inr (''data'', [3, 5, 7, 9, 11, 13, 15, 17]) \<and>
   (\<exists>data. load_data 1 = Inr (''data'', data) \<and> sorted_wrt (<) data \<and> sorted data
        \<and> int (length data) = 4 * (1 + 1))"
  using load_data_sorted [of 1]
  by (simp add: load_data_def py_range_def range_len_def upt_rec)

section \<open>Properties of the graph operations\<close>

lemma Gedges_add_node [simp]: "Gedges (add_node G n) = Gedges G"
  by (simp add: add_node_def)

lemma set_Gnodes_add_node [simp]: "set (Gnodes (add_node G n)) = insert n (set (Gnodes G))"
  by (auto simp: add_node_def)

lemma add_node_member: "n \<in> set (Gnodes G) \<Longrightarrow> add_node G n = G"
  by (simp add: add_node_def)

lemma Gedges_add_edge:
  "Gedges (add_edge G u v) = (if (u, v) \<in> set (Gedges G) then Gedges G else Gedges G @ [(u, v)])"
  by (simp add: add_edge_def Let_def)

lemma set_Gedges_add_edge [simp]: "set (Gedges (add_edge G u v)) = insert (u, v) (set (Gedges G))"
  by (auto simp: Gedges_add_edge)

lemma set_Gnodes_add_edge [simp]:
  "set (Gnodes (add_edge G u v)) = insert u (insert v (set (Gnodes G)))"
  by (auto simp: add_edge_def Let_def)

lemma Gnodes_add_edge_member:
  "u \<in> set (Gnodes G) \<Longrightarrow> v \<in> set (Gnodes G) \<Longrightarrow> Gnodes (add_edge G u v) = Gnodes G"
  by (simp add: add_edge_def Let_def add_node_member)

lemma remove_edge_Inr:
  "remove_edge G u v = Inr G' \<Longrightarrow>
     Gedges G' = removeAll (u, v) (Gedges G) \<and> Gnodes G' = Gnodes G"
  by (auto simp: remove_edge_def split: if_splits)

lemma Gedges_foldl_add_node [simp]: "Gedges (foldl add_node G ns) = Gedges G"
  by (induction ns arbitrary: G) simp_all

lemma Gnodes_foldl_add_node:
  "distinct ns \<Longrightarrow> set ns \<inter> set (Gnodes G) = {} \<Longrightarrow>
     Gnodes (foldl add_node G ns) = Gnodes G @ ns"
  by (induction ns arbitrary: G) (auto simp: add_node_def)

lemma Gnodes_entry: "Gnodes (foldl add_node DiGraph [0..nodes - 1]) = [0..nodes - 1]"
  using Gnodes_foldl_add_node [of "[0..nodes - 1]" DiGraph] by (simp add: DiGraph_def)

lemma diamond_eq:
  "diamond = \<lparr>Gnodes = [0, 1, 2, 3, 4], Gedges = [(0, 1), (0, 2), (1, 3), (2, 3), (1, 4)]\<rparr>"
  by (simp add: diamond_def add_edge_def add_node_def DiGraph_def Let_def)

lemma wf_diamond: "wf_digraph diamond"
  by (simp add: wf_digraph_def diamond_eq)

section \<open>Properties of \<open>random_dag\<close>\<close>

lemma randint_member:
  "randint lo hi draws = Some (Inr (d, rest)) \<Longrightarrow>
     d \<in> set draws \<and> set rest \<subseteq> set draws \<and> lo \<le> hi"
  by (auto split: if_splits list.splits)

text \<open>The inner loop only ever leaves with a target different from the source.\<close>

lemma redraw_result:
  "redraw nodes a b draws = Some (Inr (b', rest)) \<Longrightarrow>
     b' \<noteq> a \<and> (b' = b \<or> b' \<in> set draws) \<and> set rest \<subseteq> set draws"
proof (induction nodes a b draws rule: redraw.induct)
  case (1 nodes a b draws)
  show ?case
  proof (cases "b = a")
    case True
    with "1.prems" obtain c mid where r: "randint 0 (nodes - 1) draws = Some (Inr (c, mid))"
      and rec: "redraw nodes a c mid = Some (Inr (b', rest))"
      by (simp split: option.splits sum.splits prod.splits)
    from "1.IH" [OF True r refl refl rec] randint_member [OF r] show ?thesis by auto
  next
    case False
    with "1.prems" show ?thesis by simp
  qed
qed

text \<open>
  What one completed iteration does: it draws two different nodes \<open>a\<close> and \<open>b\<close> and
  either keeps the edge and counts it, or finds a cycle and removes the edge again.
\<close>

lemma loop_body_cases:
  assumes "loop_body nodes G e ds = Some (Inr (G', e', ds'))"
  obtains a b where "a \<noteq> b" "a \<in> set ds" "b \<in> set ds" "set ds' \<subseteq> set ds"
    and "(is_directed_acyclic_graph (add_edge G a b) \<and> G' = add_edge G a b \<and> e' = e - 1)
       \<or> (\<not> is_directed_acyclic_graph (add_edge G a b)
            \<and> remove_edge (add_edge G a b) a b = Inr G' \<and> e' = e)"
proof -
  from assms obtain a mid where r: "randint 0 (nodes - 1) ds = Some (Inr (a, mid))"
    by (auto simp: loop_body_def simp del: randint.simps split: option.splits sum.splits)
  with assms obtain b where b: "redraw nodes a a mid = Some (Inr (b, ds'))"
    by (auto simp: loop_body_def Let_def simp del: randint.simps redraw.simps
        split: option.splits sum.splits if_splits)
  from assms r b
  have "(is_directed_acyclic_graph (add_edge G a b) \<and> G' = add_edge G a b \<and> e' = e - 1)
       \<or> (\<not> is_directed_acyclic_graph (add_edge G a b)
            \<and> remove_edge (add_edge G a b) a b = Inr G' \<and> e' = e)"
    by (auto simp: loop_body_def Let_def simp del: randint.simps redraw.simps
        split: sum.splits if_splits)
  moreover from redraw_result [OF b] randint_member [OF r]
  have "a \<noteq> b" "a \<in> set ds" "b \<in> set ds" "set ds' \<subseteq> set ds" by auto
  ultimately show thesis using that by blast
qed

text \<open>The graph \<open>edge_loop\<close> returns is the graph of a loop state whose counter is used up.\<close>

lemma edge_loop_loop_state:
  "edge_loop nodes G e ds = Some (Inr R) \<Longrightarrow> loop_state nodes edges draws (G, e, ds) \<Longrightarrow>
     \<exists>e' ds'. loop_state nodes edges draws (R, e', ds') \<and> e' \<le> 0"
proof (induction nodes G e ds rule: edge_loop.induct)
  case (1 nodes G e ds)
  show ?case
  proof (cases "e > 0")
    case True
    with "1.prems"(1) obtain G' e' ds'
      where body: "loop_body nodes G e ds = Some (Inr (G', e', ds'))"
        and rec: "edge_loop nodes G' e' ds' = Some (Inr R)"
      by (simp split: option.splits sum.splits prod.splits)
    from "1.prems"(2) True body have "loop_state nodes edges draws (G', e', ds')"
      by (rule loop_state.iteration)
    from "1.IH" [OF True body refl refl refl rec this] show ?thesis .
  next
    case False
    with "1.prems" show ?thesis by auto
  qed
qed

lemma random_dag_loop_state:
  "random_dag nodes edges draws = Some (Inr R) \<Longrightarrow>
     \<exists>e ds. loop_state nodes edges draws (R, e, ds) \<and> e \<le> 0"
  unfolding random_dag_def
  by (erule edge_loop_loop_state) (rule loop_state.entry)

lemma loop_state_acyclic:
  "loop_state nodes edges draws s \<Longrightarrow> acyclic (set (Gedges (fst s)))"
proof (induction rule: loop_state.induct)
  case entry
  show ?case by (simp add: DiGraph_def acyclic_def)
next
  case (iteration G e ds s')
  obtain G' e' ds' where s': "s' = (G', e', ds')" by (cases s')
  from iteration.hyps(3) [unfolded s'] show ?case
  proof (rule loop_body_cases)
    fix a b
    assume "(is_directed_acyclic_graph (add_edge G a b) \<and> G' = add_edge G a b \<and> e' = e - 1)
       \<or> (\<not> is_directed_acyclic_graph (add_edge G a b)
            \<and> remove_edge (add_edge G a b) a b = Inr G' \<and> e' = e)"
    then show ?thesis
    proof
      assume "is_directed_acyclic_graph (add_edge G a b) \<and> G' = add_edge G a b \<and> e' = e - 1"
      then show ?thesis by (simp add: s' is_directed_acyclic_graph_def)
    next
      assume "\<not> is_directed_acyclic_graph (add_edge G a b)
            \<and> remove_edge (add_edge G a b) a b = Inr G' \<and> e' = e"
      then have "set (Gedges G') \<subseteq> set (Gedges G)"
        by (auto dest!: remove_edge_Inr)
      with iteration.IH show ?thesis
        by (auto simp: s' intro: acyclic_subset)
    qed
  qed
qed

lemma loop_state_no_self_loop:
  "loop_state nodes edges draws s \<Longrightarrow> \<forall>(a, b) \<in> set (Gedges (fst s)). a \<noteq> b"
proof (induction rule: loop_state.induct)
  case entry
  show ?case by (simp add: DiGraph_def)
next
  case (iteration G e ds s')
  obtain G' e' ds' where s': "s' = (G', e', ds')" by (cases s')
  from iteration.hyps(3) [unfolded s'] show ?case
  proof (rule loop_body_cases)
    fix a b :: int
    assume ab: "a \<noteq> b"
    assume "(is_directed_acyclic_graph (add_edge G a b) \<and> G' = add_edge G a b \<and> e' = e - 1)
       \<or> (\<not> is_directed_acyclic_graph (add_edge G a b)
            \<and> remove_edge (add_edge G a b) a b = Inr G' \<and> e' = e)"
    then have "set (Gedges G') \<subseteq> insert (a, b) (set (Gedges G))"
      by (auto dest!: remove_edge_Inr)
    with iteration.IH ab show ?thesis
      by (auto simp: s')
  qed
qed

text \<open>
  With draws in the range of \<open>randint(0, nodes-1)\<close>: the node list stays \<open>0 .. nodes-1\<close>,
  the counter never goes below zero, and the edges held plus the edges still to count
  never exceed the number asked for.
\<close>

lemma loop_state_counts:
  assumes range: "\<forall>d \<in> set draws. 0 \<le> d \<and> d < nodes" and edges: "0 \<le> edges"
  shows "loop_state nodes edges draws s \<Longrightarrow>
    (case s of (G, e, ds) \<Rightarrow>
       Gnodes G = [0..nodes - 1] \<and> set ds \<subseteq> set draws \<and> distinct (Gedges G) \<and>
       0 \<le> e \<and> int (length (Gedges G)) + e \<le> edges)"
proof (induction rule: loop_state.induct)
  case entry
  show ?case using edges by (simp add: Gnodes_entry) (simp add: DiGraph_def)
next
  case (iteration G e ds s')
  obtain G' e' ds' where s': "s' = (G', e', ds')" by (cases s')
  from iteration.IH have IH: "Gnodes G = [0..nodes - 1]" "set ds \<subseteq> set draws"
    "distinct (Gedges G)" "0 \<le> e" "int (length (Gedges G)) + e \<le> edges" by auto
  from iteration.hyps(3) [unfolded s'] show ?case
  proof (rule loop_body_cases)
    fix a b :: int
    assume mem: "a \<in> set ds" "b \<in> set ds" and sub: "set ds' \<subseteq> set ds"
    with IH(1,2) range have nodes: "a \<in> set (Gnodes G)" "b \<in> set (Gnodes G)" by auto
    have G1: "Gnodes (add_edge G a b) = [0..nodes - 1]"
      using nodes IH(1) by (simp add: Gnodes_add_edge_member)
    assume "(is_directed_acyclic_graph (add_edge G a b) \<and> G' = add_edge G a b \<and> e' = e - 1)
       \<or> (\<not> is_directed_acyclic_graph (add_edge G a b)
            \<and> remove_edge (add_edge G a b) a b = Inr G' \<and> e' = e)"
    then show ?thesis
    proof
      assume "is_directed_acyclic_graph (add_edge G a b) \<and> G' = add_edge G a b \<and> e' = e - 1"
      with G1 IH sub iteration.hyps(2) show ?thesis
        by (auto simp: s' Gedges_add_edge)
    next
      assume r: "\<not> is_directed_acyclic_graph (add_edge G a b)
            \<and> remove_edge (add_edge G a b) a b = Inr G' \<and> e' = e"
      then have "Gedges G' = removeAll (a, b) (Gedges (add_edge G a b))"
        "Gnodes G' = [0..nodes - 1]"
        using G1 by (auto dest!: remove_edge_Inr)
      moreover have "length (removeAll (a, b) (Gedges (add_edge G a b))) \<le> length (Gedges G)"
        by (auto simp: Gedges_add_edge removeAll_filter_not_eq
              intro: order_trans [OF length_filter_le])
      moreover have "distinct (removeAll (a, b) (Gedges (add_edge G a b)))"
        using IH(3) by (auto simp: Gedges_add_edge distinct_removeAll)
      ultimately show ?thesis using IH sub r
        by (auto simp: s')
    qed
  qed
qed

text \<open>
  The parts of the contract of \<open>random_dag\<close> that hold on every run that returns: the
  nodes are exactly \<open>0 .. nodes-1\<close>, the graph is acyclic, and it has at most \<open>edges\<close>
  edges.
\<close>

lemma random_dag_counts:
  assumes "\<forall>d \<in> set draws. 0 \<le> d \<and> d < nodes" and "0 \<le> edges" and "0 \<le> nodes"
    and "random_dag nodes edges draws = Some (Inr R)"
  shows "Gnodes R = [0..nodes - 1] \<and> int (length (Gnodes R)) = nodes \<and>
         int (length (Gedges R)) \<le> edges \<and> is_directed_acyclic_graph R"
proof -
  from random_dag_loop_state [OF assms(4)] obtain e ds
    where ls: "loop_state nodes edges draws (R, e, ds)" and e: "e \<le> 0" by blast
  from loop_state_counts [OF assms(1,2) ls] e loop_state_acyclic [OF ls] assms(3)
  show ?thesis by (auto simp: is_directed_acyclic_graph_def)
qed

text \<open>
  A run of \<open>random_dag(3, 2)\<close>: the draws propose \<open>(0,1)\<close> (kept), then \<open>(1,0)\<close>, which
  closes a cycle and is removed, then \<open>(2,1)\<close> (kept). The two draws equal to the source
  are drawn again by the inner loop.
\<close>

lemma random_dag_run:
  "random_dag 3 2 [0, 0, 1, 1, 1, 0, 2, 1]
     = Some (Inr \<lparr>Gnodes = [0, 1, 2], Gedges = [(0, 1), (2, 1)]\<rparr>)"
  by code_simp

lemma loop_state_run_first:
  "loop_state 3 2 [0, 0, 1, 1, 1, 0, 2, 1]
     (\<lparr>Gnodes = [0, 1, 2], Gedges = [(0, 1)]\<rparr>, 1, [1, 1, 0, 2, 1])"
proof -
  have "loop_body 3 (foldl add_node DiGraph [0..3 - 1]) 2 [0, 0, 1, 1, 1, 0, 2, 1]
          = Some (Inr (\<lparr>Gnodes = [0, 1, 2], Gedges = [(0, 1)]\<rparr>, 1, [1, 1, 0, 2, 1]))"
    by code_simp
  from loop_state.iteration [OF loop_state.entry _ this] show ?thesis by simp
qed

lemma loop_state_run_second:
  "loop_state 3 2 [0, 0, 1, 1, 1, 0, 2, 1]
     (\<lparr>Gnodes = [0, 1, 2], Gedges = [(0, 1)]\<rparr>, 1, [2, 1])"
proof -
  have "loop_body 3 \<lparr>Gnodes = [0, 1, 2], Gedges = [(0, 1)]\<rparr> 1 [1, 1, 0, 2, 1]
          = Some (Inr (\<lparr>Gnodes = [0, 1, 2], Gedges = [(0, 1)]\<rparr>, 1, [2, 1]))"
    by code_simp
  from loop_state.iteration [OF loop_state_run_first _ this] show ?thesis by simp
qed

text \<open>
  Claim C4. A cycle is only ever rejected while the graph is built and never reaches
  execution: the graph \<open>random_dag\<close> holds on entry to the edge-adding loop and after
  every iteration of it is acyclic (an edge whose insertion closes a cycle is removed
  before the loop goes on), and so is the graph it returns.
\<close>

theorem random_dag_acyclic_invariant:
  "(loop_state nodes edges draws (G, e, rest) \<longrightarrow> is_directed_acyclic_graph G) \<and>
   (random_dag nodes edges draws = Some (Inr R) \<longrightarrow> is_directed_acyclic_graph R)"
  using loop_state_acyclic [of nodes edges draws "(G, e, rest)"]
    random_dag_loop_state [of nodes edges draws R] loop_state_acyclic [of nodes edges draws]
  by (fastforce simp: is_directed_acyclic_graph_def)

theorem random_dag_acyclic_invariant_witness:
  "loop_state 3 2 [0, 0, 1, 1, 1, 0, 2, 1] (\<lparr>Gnodes = [0, 1, 2], Gedges = [(0, 1)]\<rparr>, 1, [2, 1])
   \<and> random_dag 3 2 [0, 0, 1, 1, 1, 0, 2, 1]
        = Some (Inr \<lparr>Gnodes = [0, 1, 2], Gedges = [(0, 1), (2, 1)]\<rparr>)
   \<and> is_directed_acyclic_graph \<lparr>Gnodes = [0, 1, 2], Gedges = [(0, 1)]\<rparr>
   \<and> is_directed_acyclic_graph \<lparr>Gnodes = [0, 1, 2], Gedges = [(0, 1), (2, 1)]\<rparr>"
  using random_dag_acyclic_invariant [of 3 2 "[0, 0, 1, 1, 1, 0, 2, 1]"
      "\<lparr>Gnodes = [0, 1, 2], Gedges = [(0, 1)]\<rparr>" 1 "[2, 1]"
      "\<lparr>Gnodes = [0, 1, 2], Gedges = [(0, 1), (2, 1)]\<rparr>"]
    loop_state_run_second random_dag_run
  by simp

text \<open>
  Claim C5 (\<open>random_dag(nodes, edges)\<close> returns a graph with exactly \<open>nodes\<close> nodes
  and exactly \<open>edges\<close> edges). The edge count fails on the code: \<open>add_edge\<close> of an edge
  the graph already holds changes nothing, the graph is still acyclic, and the loop
  counts the draw as a new edge. Here \<open>random_dag(3, 2)\<close> draws the edge \<open>(0,1)\<close> twice
  and returns a graph with one edge. (\<open>random_dag_counts\<close> above has what does hold:
  the node count, acyclicity, and at most \<open>edges\<close> edges.)
\<close>

theorem random_dag_duplicate_draw:
  "random_dag 3 2 [0, 1, 0, 1] = Some (Inr \<lparr>Gnodes = [0, 1, 2], Gedges = [(0, 1)]\<rparr>)"
  by code_simp

text \<open>
  Claim C8. No graph returned by \<open>random_dag\<close> has a self-loop: every edge \<open>(a, b)\<close>
  of it has \<open>a \<noteq> b\<close>, since the target is drawn again until it differs from the source.
\<close>

theorem random_dag_no_self_loop:
  "random_dag nodes edges draws = Some (Inr R) \<Longrightarrow> (a, b) \<in> set (Gedges R) \<Longrightarrow> a \<noteq> b"
  using random_dag_loop_state [of nodes edges draws R]
    loop_state_no_self_loop [of nodes edges draws]
  by fastforce

theorem random_dag_no_self_loop_witness:
  "random_dag 3 2 [0, 0, 1, 1, 1, 0, 2, 1]
        = Some (Inr \<lparr>Gnodes = [0, 1, 2], Gedges = [(0, 1), (2, 1)]\<rparr>)
   \<and> (2, 1) \<in> set (Gedges \<lparr>Gnodes = [0, 1, 2], Gedges = [(0, 1), (2, 1)]\<rparr>)
   \<and> (2::int) \<noteq> 1"
  using random_dag_no_self_loop [OF random_dag_run, of 2 1] random_dag_run
  by simp

section \<open>Properties of \<open>validate_tree\<close>\<close>

lemma check_parents_AssertionError:
  "check_parents results node st ps = Inl (AssertionError n p) \<Longrightarrow>
     results node = Some r \<Longrightarrow> started r = st \<Longrightarrow>
     n = node \<and> p \<in> set ps \<and> late results p n"
  by (induction ps) (auto simp: late_def split: option.splits if_splits)


text \<open>An assertion only ever fails on an edge whose target started late.\<close>

lemma validate_nodes_AssertionError:
  "validate_nodes G results ns = Inl (AssertionError n p) \<Longrightarrow>
     n \<in> set ns \<and> (p, n) \<in> set (Gedges G) \<and> late results p n"
proof (induction ns)
  case Nil
  then show ?case by simp
next
  case (Cons node ns)
  show ?case
  proof (cases "results node")
    case None
    with Cons.prems show ?thesis by simp
  next
    case (Some r)
    show ?thesis
    proof (cases "predecessors G node")
      case (Inl e)
      with Some Cons.prems show ?thesis
        by (auto simp: predecessors_def split: if_splits)
    next
      case (Inr ps)
      then have ps: "set ps = {a. (a, node) \<in> set (Gedges G)}"
        by (auto simp: predecessors_def image_iff split: if_splits)
      show ?thesis
      proof (cases "check_parents results node (started r) ps")
        case (Inl e)
        with Some Inr Cons.prems
        have "check_parents results node (started r) ps = Inl (AssertionError n p)"
          by simp
        from check_parents_AssertionError [OF this Some refl] ps show ?thesis by auto
      next
        case Inr2: (Inr u)
        with Some Inr Cons.prems Cons.IH show ?thesis by simp
      qed
    qed
  qed
qed







section \<open>Properties of the topological sequence\<close>

lemma precedes_append:
  "precedes (xs @ ys) a b \<longleftrightarrow>
     precedes xs a b \<or> precedes ys a b \<or> (a \<in> set xs \<and> b \<in> set ys)"
  by (induction xs) auto

lemma precedes_index:
  "precedes xs a b \<longleftrightarrow> (\<exists>i j. i < j \<and> j < length xs \<and> xs ! i = a \<and> xs ! j = b)"
proof (induction xs)
  case Nil
  show ?case by simp
next
  case (Cons x xs)
  show ?case
  proof
    assume "precedes (x # xs) a b"
    then consider "x = a" "b \<in> set xs" | "precedes xs a b" by auto
    then show "\<exists>i j. i < j \<and> j < length (x # xs) \<and> (x # xs) ! i = a \<and> (x # xs) ! j = b"
    proof cases
      case 1
      then obtain j where "j < length xs" "xs ! j = b" by (auto simp: in_set_conv_nth)
      with 1 have "0 < Suc j \<and> Suc j < length (x # xs) \<and> (x # xs) ! 0 = a \<and> (x # xs) ! Suc j = b"
        by simp
      then show ?thesis by blast
    next
      case 2
      with Cons.IH obtain i j where "i < j" "j < length xs" "xs ! i = a" "xs ! j = b" by blast
      then have "Suc i < Suc j \<and> Suc j < length (x # xs) \<and> (x # xs) ! Suc i = a \<and> (x # xs) ! Suc j = b"
        by simp
      then show ?thesis by blast
    qed
  next
    assume "\<exists>i j. i < j \<and> j < length (x # xs) \<and> (x # xs) ! i = a \<and> (x # xs) ! j = b"
    then obtain i j where ij: "i < j" "j < length (x # xs)" "(x # xs) ! i = a" "(x # xs) ! j = b"
      by blast
    then obtain j' where j': "j = Suc j'" by (cases j) auto
    show "precedes (x # xs) a b"
    proof (cases i)
      case 0
      with ij j' show ?thesis by auto
    next
      case (Suc i')
      with ij j' have "i' < j' \<and> j' < length xs \<and> xs ! i' = a \<and> xs ! j' = b" by simp
      with Cons.IH show ?thesis by auto
    qed
  qed
qed

lemma foldl_decrement:
  "foldl decrement indeg ss m = indeg m - count_list ss m"
  by (induction ss arbitrary: indeg) (auto simp: decrement_def)

lemma count_list_edges:
  "distinct es \<Longrightarrow>
     count_list (map snd (filter (\<lambda>e. fst e = n) es)) m = (if (n, m) \<in> set es then 1 else 0)"
  by (induction es) auto

lemma count_list_successorsOf:
  "distinct (Gedges G) \<Longrightarrow>
     count_list (successorsOf G n) m = (if (n, m) \<in> set (Gedges G) then 1 else 0)"
  unfolding successorsOf_def by (rule count_list_edges)

lemma card_remove_pred:
  assumes "n \<in> P" and "finite P"
  shows "card {p \<in> P - {n}. (p, m) \<in> E} = card {p \<in> P. (p, m) \<in> E} - (if (n, m) \<in> E then 1 else 0)"
proof (cases "(n, m) \<in> E")
  case True
  have "{p \<in> P - {n}. (p, m) \<in> E} = {p \<in> P. (p, m) \<in> E} - {n}" by auto
  moreover have "n \<in> {p \<in> P. (p, m) \<in> E}" using True assms by simp
  moreover have "finite {p \<in> P. (p, m) \<in> E}" using assms by simp
  ultimately show ?thesis using True by (simp add: card_Diff_singleton)
next
  case False
  then have "{p \<in> P - {n}. (p, m) \<in> E} = {p \<in> P. (p, m) \<in> E}" by auto
  with False show ?thesis by simp
qed

lemma kahn_inv_step:
  assumes inv: "kahn_inv G indeg pending out" and wf: "wf_digraph G"
    and pick: "find (\<lambda>n. indeg n = 0) pending = Some n"
  shows "kahn_inv G (foldl decrement indeg (successorsOf G n)) (remove1 n pending) (out @ [n])"
proof -
  from pick have n: "n \<in> set pending" "indeg n = 0"
    by (auto simp: find_Some_iff)
  from inv have d: "distinct pending" "distinct out" "set pending \<inter> set out = {}"
    "set pending \<union> set out = set (Gnodes G)"
    and deg: "\<And>m. m \<in> set pending \<Longrightarrow> indeg m = card {p \<in> set pending. (p, m) \<in> set (Gedges G)}"
    and ord: "\<And>e. e \<in> set (Gedges G) \<Longrightarrow> snd e \<in> set out \<Longrightarrow> precedes out (fst e) (snd e)"
    by (auto simp: kahn_inv_def)
  from wf have E: "distinct (Gedges G)"
    and ends: "\<And>e. e \<in> set (Gedges G) \<Longrightarrow> fst e \<in> set (Gnodes G) \<and> snd e \<in> set (Gnodes G)"
    by (auto simp: wf_digraph_def)
  have rem: "set (remove1 n pending) = set pending - {n}"
    using d(1) by simp
  have nopred: "\<And>p. (p, n) \<in> set (Gedges G) \<Longrightarrow> p \<in> set out"
  proof -
    fix p assume p: "(p, n) \<in> set (Gedges G)"
    from deg [OF n(1)] n(2) have "{p \<in> set pending. (p, n) \<in> set (Gedges G)} = {}"
      by simp
    with p have "p \<notin> set pending" by auto
    moreover from ends [OF p] have "p \<in> set (Gnodes G)" by simp
    ultimately show "p \<in> set out" using d(4) by auto
  qed
  have "distinct (remove1 n pending)" using d(1) by simp
  moreover have "distinct (out @ [n])" using d(2,3) n(1) by auto
  moreover have "set (remove1 n pending) \<inter> set (out @ [n]) = {}"
    using d(3) rem by auto
  moreover have "set (remove1 n pending) \<union> set (out @ [n]) = set (Gnodes G)"
    using d(4) rem n(1) by auto
  moreover have "\<forall>m \<in> set (remove1 n pending).
      foldl decrement indeg (successorsOf G n) m
        = card {p \<in> set (remove1 n pending). (p, m) \<in> set (Gedges G)}"
  proof
    fix m assume "m \<in> set (remove1 n pending)"
    then have m: "m \<in> set pending" using rem by simp
    show "foldl decrement indeg (successorsOf G n) m
        = card {p \<in> set (remove1 n pending). (p, m) \<in> set (Gedges G)}"
      unfolding rem foldl_decrement count_list_successorsOf [OF E] deg [OF m]
      using card_remove_pred [OF n(1), of m "set (Gedges G)"] by simp
  qed
  moreover have "\<forall>e \<in> set (Gedges G). snd e \<in> set (out @ [n]) \<longrightarrow>
      precedes (out @ [n]) (fst e) (snd e)"
  proof (intro ballI impI)
    fix e assume e: "e \<in> set (Gedges G)" and "snd e \<in> set (out @ [n])"
    then consider "snd e \<in> set out" | "snd e = n" by auto
    then show "precedes (out @ [n]) (fst e) (snd e)"
    proof cases
      case 1
      from ord [OF e 1] show ?thesis by (simp add: precedes_append)
    next
      case 2
      with e have "(fst e, n) \<in> set (Gedges G)" by (metis prod.collapse)
      from nopred [OF this] 2 show ?thesis by (simp add: precedes_append)
    qed
  qed
  ultimately show ?thesis unfolding kahn_inv_def by blast
qed

lemma kahn_inv_done:
  assumes inv: "kahn_inv G indeg pending out" and acyc: "acyclic (set (Gedges G))"
    and none: "find (\<lambda>n. indeg n = 0) pending = None"
  shows "pending = []"
proof (rule ccontr)
  assume "pending \<noteq> []"
  then obtain x where x: "x \<in> set pending" by (cases pending) auto
  have "wf (set (Gedges G))" using acyc by (simp add: finite_acyclic_wf)
  from wfE_min [OF this x] obtain z where z: "z \<in> set pending"
    and min: "\<And>y. (y, z) \<in> set (Gedges G) \<Longrightarrow> y \<notin> set pending" by blast
  from min have "{p \<in> set pending. (p, z) \<in> set (Gedges G)} = {}" by auto
  with inv z have "indeg z = 0" by (simp add: kahn_inv_def)
  with z none show False by (auto simp: find_None_iff)
qed

lemma kahn_correct:
  "kahn_inv G indeg pending out \<Longrightarrow> wf_digraph G \<Longrightarrow> acyclic (set (Gedges G)) \<Longrightarrow>
     distinct (kahn G indeg pending out) \<and> set (kahn G indeg pending out) = set (Gnodes G) \<and>
     (\<forall>e \<in> set (Gedges G). precedes (kahn G indeg pending out) (fst e) (snd e))"
proof (induction G indeg pending out rule: kahn.induct)
  case (1 G indeg pending out)
  show ?case
  proof (cases "find (\<lambda>n. indeg n = 0) pending")
    case None
    from kahn_inv_done [OF "1.prems"(1,3) None] have "pending = []" .
    with "1.prems"(1,2) have "distinct out" "set out = set (Gnodes G)"
      "\<forall>e \<in> set (Gedges G). precedes out (fst e) (snd e)"
      by (auto simp: kahn_inv_def wf_digraph_def)
    moreover from None have "kahn G indeg pending out = out" by simp
    ultimately show ?thesis by simp
  next
    case (Some n)
    from kahn_inv_step [OF "1.prems"(1,2) Some]
    have "kahn_inv G (foldl decrement indeg (successorsOf G n)) (remove1 n pending) (out @ [n])" .
    from "1.IH" [OF Some this "1.prems"(2,3)] Some show ?thesis by simp
  qed
qed

lemma in_degree_card:
  assumes "wf_digraph G"
  shows "in_degree G m = card {p \<in> set (Gnodes G). (p, m) \<in> set (Gedges G)}"
proof -
  from assms have E: "distinct (Gedges G)"
    and ends: "\<And>e. e \<in> set (Gedges G) \<Longrightarrow> fst e \<in> set (Gnodes G)"
    by (auto simp: wf_digraph_def)
  have inj: "inj_on fst (set (filter (\<lambda>e. snd e = m) (Gedges G)))"
    by (auto simp: inj_on_def prod_eq_iff)
  have "distinct (predecessorsOf G m)"
    unfolding predecessorsOf_def using E inj by (simp add: distinct_map)
  then have "in_degree G m = card (set (predecessorsOf G m))"
    unfolding in_degree_def by (simp add: distinct_card)
  also have "set (predecessorsOf G m) = {p \<in> set (Gnodes G). (p, m) \<in> set (Gedges G)}"
    unfolding predecessorsOf_def using ends by force
  finally show ?thesis .
qed

lemma kahn_inv_start: "wf_digraph G \<Longrightarrow> kahn_inv G (in_degree G) (Gnodes G) []"
  by (simp add: kahn_inv_def in_degree_card) (simp add: wf_digraph_def)

lemma sequence_topological:
  assumes "wf_digraph G" and "is_directed_acyclic_graph G"
  shows "\<exists>order. sequence G = Inr order \<and> distinct order \<and> set order = set (Gnodes G) \<and>
           (\<forall>e \<in> set (Gedges G). precedes order (fst e) (snd e))"
proof -
  let ?out = "kahn G (in_degree G) (Gnodes G) []"
  from kahn_correct [OF kahn_inv_start [OF assms(1)] assms(1)] assms(2)
  have k: "distinct ?out" "set ?out = set (Gnodes G)"
    "\<forall>e \<in> set (Gedges G). precedes ?out (fst e) (snd e)"
    by (auto simp: is_directed_acyclic_graph_def)
  from k(1,2) assms(1) have "length ?out = length (Gnodes G)"
    by (metis distinct_card wf_digraph_def)
  with k show ?thesis by (simp add: sequence_def Let_def)
qed


section \<open>Properties of the submission loop\<close>

lemma make_jobs_dom: "dom (foldl (\<lambda>jobs node. jobs(node \<mapsto> randomwait)) m ns) = dom m \<union> set ns"
  by (induction ns arbitrary: m) auto

lemma lookup_deps_ok:
  "set ps \<subseteq> dom results \<Longrightarrow> \<exists>deps. lookup_deps results ps = Inr deps \<and> map Some deps = map results ps"
  by (induction ps) auto

lemma precedes_in_set: "precedes xs a b \<Longrightarrow> a \<in> set xs \<and> b \<in> set xs"
  by (induction xs) auto

lemma submit_loop_ok:
  assumes "wf_digraph G"
  shows "distinct rest \<Longrightarrow> set rest \<subseteq> set (Gnodes G) \<Longrightarrow> set rest \<subseteq> dom jobs \<Longrightarrow>
     set rest \<inter> dom results = {} \<Longrightarrow>
     (\<forall>e \<in> set (Gedges G). snd e \<in> set rest \<longrightarrow>
          fst e \<in> dom results \<or> precedes rest (fst e) (snd e)) \<Longrightarrow>
     \<exists>results' ext. submit_loop G jobs (results, view) rest = Inr (results', view @ ext) \<and>
        dom results' = dom results \<union> set rest \<and>
        (\<forall>n \<in> dom results. results' n = results n) \<and>
        (\<forall>n \<in> set rest. \<exists>h. results' n = Some h \<and> h < length (view @ ext) \<and>
            map Some (after ((view @ ext) ! h)) = map results' (predecessorsOf G n))"
proof (induction rest arbitrary: results view)
  case Nil
  show ?case by simp
next
  case (Cons node rest)
  let ?ps = "predecessorsOf G node"
  from Cons.prems(2) have pred: "predecessors G node = Inr ?ps"
    by (simp add: predecessors_def predecessorsOf_def)
  have ps: "set ?ps \<subseteq> dom results"
  proof
    fix p assume "p \<in> set ?ps"
    then obtain e where e: "e \<in> set (Gedges G)" "snd e = node" "fst e = p"
      by (auto simp: predecessorsOf_def)
    with Cons.prems(5) have "p \<in> dom results \<or> precedes (node # rest) p node" by auto
    moreover have "\<not> precedes (node # rest) p node"
      using Cons.prems(1) by (auto dest: precedes_in_set)
    ultimately show "p \<in> dom results" by blast
  qed
  from lookup_deps_ok [OF this] obtain deps
    where deps: "lookup_deps results ?ps = Inr deps" "map Some deps = map results ?ps"
    by blast
  from Cons.prems(3) obtain f where f: "jobs node = Some f" by auto
  let ?r = "length view" and ?t = "\<lparr>func = f, after = deps\<rparr>"
  let ?results1 = "results(node \<mapsto> ?r)"
  have a: "apply_async view f deps = (?r, view @ [?t])" by (simp add: apply_async_def)
  have new: "node \<notin> dom results" "node \<notin> set rest" using Cons.prems(1,4) by auto
  have 1: "distinct rest" "set rest \<subseteq> set (Gnodes G)" "set rest \<subseteq> dom jobs"
    "set rest \<inter> dom ?results1 = {}"
    using Cons.prems(1,2,3,4) by auto
  have 2: "\<forall>e \<in> set (Gedges G). snd e \<in> set rest \<longrightarrow>
          fst e \<in> dom ?results1 \<or> precedes rest (fst e) (snd e)"
    using Cons.prems(5) by auto
  from Cons.IH [OF 1 2, of "view @ [?t]"]
  obtain results' ext where IH:
    "submit_loop G jobs (?results1, view @ [?t]) rest = Inr (results', (view @ [?t]) @ ext)"
    "dom results' = dom ?results1 \<union> set rest"
    "\<forall>n \<in> dom ?results1. results' n = ?results1 n"
    "\<forall>n \<in> set rest. \<exists>h. results' n = Some h \<and> h < length ((view @ [?t]) @ ext) \<and>
        map Some (after (((view @ [?t]) @ ext) ! h)) = map results' (predecessorsOf G n)"
    by blast
  have run: "submit_loop G jobs (results, view) (node # rest) = Inr (results', view @ (?t # ext))"
    using pred deps(1) f a IH(1) by simp
  have keep: "\<forall>n \<in> dom results. results' n = results n"
    using IH(3) new(1) by (auto simp: dom_def)
  have head: "results' node = Some ?r" using IH(3) by simp
  have "map results' ?ps = map results ?ps"
    using ps keep by (auto simp: subset_iff)
  with deps(2) have link: "map Some (after ((view @ (?t # ext)) ! ?r)) = map results' ?ps"
    by simp
  have "\<forall>n \<in> set (node # rest). \<exists>h. results' n = Some h \<and> h < length (view @ (?t # ext)) \<and>
            map Some (after ((view @ (?t # ext)) ! h)) = map results' (predecessorsOf G n)"
  proof
    fix n assume "n \<in> set (node # rest)"
    then consider "n = node" | "n \<in> set rest" by auto
    then show "\<exists>h. results' n = Some h \<and> h < length (view @ (?t # ext)) \<and>
            map Some (after ((view @ (?t # ext)) ! h)) = map results' (predecessorsOf G n)"
    proof cases
      case 1
      with head link show ?thesis by auto
    next
      case 2
      with IH(4) show ?thesis by simp
    qed
  qed
  moreover have "dom results' = dom results \<union> set (node # rest)"
    using IH(2) by auto
  ultimately show ?case using run keep by blast
qed

lemma make_jobs_dom': "dom (make_jobs G) = set (Gnodes G)"
  by (simp add: make_jobs_def make_jobs_dom)

lemma dag_diamond: "is_directed_acyclic_graph diamond"
  unfolding diamond_eq by code_simp

lemma sequence_diamond: "sequence diamond = Inr [0, 1, 2, 3, 4]"
  by code_simp

lemma submit_jobs_diamond:
  "case submit_jobs diamond of
     Inl e \<Rightarrow> False
   | Inr (results, view) \<Rightarrow>
       map results [0, 1, 2, 3, 4] = [Some 0, Some 1, Some 2, Some 3, Some 4] \<and>
       map after view = [[], [0], [0], [1, 2], [1]]"
  by code_simp

text \<open>In an order that is not topological the loop fails: \<open>3\<close> is reached before \<open>2\<close>.\<close>

lemma submit_loop_wrong_order:
  "submit_loop diamond (make_jobs diamond) (Map.empty, []) [0, 1, 3, 2, 4] = Inl KeyError"
proof -
  have "case submit_loop diamond (make_jobs diamond) (Map.empty, []) [0, 1, 3, 2, 4] of
          Inl e \<Rightarrow> e = KeyError | Inr r \<Rightarrow> False"
    by code_simp
  then show ?thesis
    by (cases "submit_loop diamond (make_jobs diamond) (Map.empty, []) [0, 1, 3, 2, 4]")
       (simp_all del: submit_loop.simps)
qed

text \<open>
  Claim C6. On an acyclic graph the topological sequence used for submission holds
  every node exactly once, and the source of every edge comes before its target.
  Consequently the submission loop runs through without a \<open>KeyError\<close>: when a node is
  submitted the handle of each of its direct predecessors is already in \<open>results\<close>, and
  the task is queued with exactly those handles as \<open>after\<close>; in the end every node
  has its handle.
\<close>

theorem submission_in_topological_order:
  assumes "wf_digraph G" and "is_directed_acyclic_graph G"
  shows "\<exists>order results view.
           sequence G = Inr order \<and> distinct order \<and> set order = set (Gnodes G) \<and>
           (\<forall>e \<in> set (Gedges G).
               \<exists>i j. i < j \<and> j < length order \<and> order ! i = fst e \<and> order ! j = snd e) \<and>
           submit_jobs G = Inr (results, view) \<and> dom results = set (Gnodes G) \<and>
           (\<forall>n \<in> set (Gnodes G). \<exists>h. results n = Some h \<and> h < length view \<and>
               map Some (after (view ! h)) = map results (predecessorsOf G n))"
proof -
  from sequence_topological [OF assms] obtain order
    where o: "sequence G = Inr order" "distinct order" "set order = set (Gnodes G)"
      "\<forall>e \<in> set (Gedges G). precedes order (fst e) (snd e)"
    by blast
  have "\<forall>e \<in> set (Gedges G). snd e \<in> set order \<longrightarrow>
          fst e \<in> dom (Map.empty :: handles) \<or> precedes order (fst e) (snd e)"
    using o(4) by simp
  from submit_loop_ok [OF assms(1) o(2) _ _ _ this, of "make_jobs G" "[]"] o(3)
  obtain results ext where
    "submit_loop G (make_jobs G) (Map.empty, []) order = Inr (results, ext)"
    "dom results = set order"
    "\<forall>n \<in> set order. \<exists>h. results n = Some h \<and> h < length ext \<and>
        map Some (after (ext ! h)) = map results (predecessorsOf G n)"
    by (auto simp: make_jobs_dom')
  moreover have "\<forall>e \<in> set (Gedges G).
      \<exists>i j. i < j \<and> j < length order \<and> order ! i = fst e \<and> order ! j = snd e"
    using o(4) by (simp add: precedes_index)
  ultimately show ?thesis using o(1,2,3) by (auto simp: submit_jobs_def)
qed

theorem submission_in_topological_order_witness:
  "wf_digraph diamond \<and> is_directed_acyclic_graph diamond \<and>
   sequence diamond = Inr [0, 1, 2, 3, 4] \<and>
   (\<exists>results view. submit_jobs diamond = Inr (results, view) \<and>
      dom results = set (Gnodes diamond) \<and>
      map results [0, 1, 2, 3, 4] = [Some 0, Some 1, Some 2, Some 3, Some 4] \<and>
      map after view = [[], [0], [0], [1, 2], [1]])"
  using submission_in_topological_order [OF wf_diamond dag_diamond]
    wf_diamond dag_diamond sequence_diamond submit_jobs_diamond
  by (auto split: sum.splits)

section \<open>Properties of the scheduler\<close>

lemma succ_pred: "s \<in> set (successorsOf G c) \<longleftrightarrow> c \<in> set (predecessorsOf G s)"
  by (force simp: successorsOf_def predecessorsOf_def)

lemma strict_inv_update:
  assumes inv: "strict_inv G fails states" and old: "\<not> terminal (states s)"
    and v1: "v = Succeeded \<longrightarrow> \<not> fails s" and v2: "v = Failed \<longrightarrow> fails s"
    and v3: "v \<noteq> Pending \<longrightarrow> v \<noteq> Unreachable \<longrightarrow>
               (\<forall>p \<in> set (predecessorsOf G s). states p = Succeeded)"
    and v4: "v = Unreachable \<longrightarrow>
               (\<exists>p \<in> set (predecessorsOf G s). states p = Failed \<or> states p = Unreachable)"
  shows "strict_inv G fails (states(s := v))"
proof -
  let ?st = "states(s := v)"
  from inv have i1: "\<And>n. states n = Succeeded \<Longrightarrow> \<not> fails n"
    and i2: "\<And>n. states n = Failed \<Longrightarrow> fails n"
    and i3: "\<And>n p. states n \<noteq> Pending \<Longrightarrow> states n \<noteq> Unreachable \<Longrightarrow>
             p \<in> set (predecessorsOf G n) \<Longrightarrow> states p = Succeeded"
    and i4: "\<And>n. states n = Unreachable \<Longrightarrow>
             \<exists>p \<in> set (predecessorsOf G n). states p = Failed \<or> states p = Unreachable"
    unfolding strict_inv_def by blast+
  have same: "\<And>p. terminal (states p) \<Longrightarrow> ?st p = states p"
    using old by auto
  have c1: "\<forall>n. ?st n = Succeeded \<longrightarrow> \<not> fails n"
    using i1 v1 by (auto split: if_splits)
  have c2: "\<forall>n. ?st n = Failed \<longrightarrow> fails n"
    using i2 v2 by (auto split: if_splits)
  have c3: "\<forall>n p. ?st n \<noteq> Pending \<longrightarrow> ?st n \<noteq> Unreachable \<longrightarrow>
             p \<in> set (predecessorsOf G n) \<longrightarrow> ?st p = Succeeded"
  proof (intro allI impI)
    fix n p
    assume a: "?st n \<noteq> Pending" "?st n \<noteq> Unreachable" "p \<in> set (predecessorsOf G n)"
    have "states p = Succeeded"
    proof (cases "n = s")
      case True
      with a(1,2) v3 have "\<forall>p \<in> set (predecessorsOf G s). states p = Succeeded" by auto
      with a(3) True show ?thesis by simp
    next
      case False
      with a i3 [of n p] show ?thesis by simp
    qed
    then show "?st p = Succeeded" using same [of p] by (simp add: terminal_def)
  qed
  have c4: "\<forall>n. ?st n = Unreachable \<longrightarrow>
             (\<exists>p \<in> set (predecessorsOf G n). ?st p = Failed \<or> ?st p = Unreachable)"
  proof (intro allI impI)
    fix n
    assume a: "?st n = Unreachable"
    have "\<exists>p \<in> set (predecessorsOf G n). states p = Failed \<or> states p = Unreachable"
    proof (cases "n = s")
      case True
      with a v4 show ?thesis by auto
    next
      case False
      with a i4 [of n] show ?thesis by simp
    qed
    then obtain p where p: "p \<in> set (predecessorsOf G n)" "states p = Failed \<or> states p = Unreachable"
      by blast
    then have "?st p = states p" using same [of p] by (auto simp: terminal_def)
    with p show "\<exists>p \<in> set (predecessorsOf G n). ?st p = Failed \<or> ?st p = Unreachable"
      by metis
  qed
  from c1 c2 c3 c4 show ?thesis unfolding strict_inv_def by blast
qed

lemma resolve_successor_inv:
  assumes "strict_inv G fails states" and "policy s = ALL_SUCCESS"
    and "s \<in> set (successorsOf G c)"
  shows "strict_inv G fails (resolve_successor G policy c states s)"
proof (cases "states s = Pending")
  case False
  then show ?thesis using assms(1) by (simp add: resolve_successor_def)
next
  case True
  from assms(3) have c: "c \<in> set (predecessorsOf G s)" by (simp add: succ_pred)
  show ?thesis
  proof (cases "states c = Failed \<or> states c = Unreachable")
    case bad: True
    then have eq: "resolve_successor G policy c states s = states(s := Unreachable)"
      using True assms(2) by (simp add: resolve_successor_def)
    from bad c True show ?thesis unfolding eq
      by (intro strict_inv_update [OF assms(1)]) (auto simp: terminal_def)
  next
    case good: False
    show ?thesis
    proof (cases "\<forall>d \<in> set (predecessorsOf G s). states d = Succeeded")
      case all: True
      then have eq: "resolve_successor G policy c states s = states(s := Ready)"
        using True good assms(2) by (simp add: resolve_successor_def satisfied_def)
      from all True show ?thesis unfolding eq
        by (intro strict_inv_update [OF assms(1)]) (auto simp: terminal_def)
    next
      case False
      then have "resolve_successor G policy c states s = states"
        using True good assms(2) by (auto simp: resolve_successor_def satisfied_def)
      with assms(1) show ?thesis by simp
    qed
  qed
qed

lemma resolve_inv:
  assumes "\<forall>n. policy n = ALL_SUCCESS"
  shows "strict_inv G fails states \<Longrightarrow> strict_inv G fails (resolve G policy states c)"
proof -
  have "set ss \<subseteq> set (successorsOf G c) \<Longrightarrow> strict_inv G fails states \<Longrightarrow>
      strict_inv G fails (foldl (resolve_successor G policy c) states ss)" for ss
  proof (induction ss arbitrary: states)
    case Nil
    then show ?case by simp
  next
    case (Cons s ss)
    from Cons.prems have "strict_inv G fails (resolve_successor G policy c states s)"
      using assms by (intro resolve_successor_inv) auto
    with Cons.IH Cons.prems(1) show ?case by simp
  qed
  then show "strict_inv G fails states \<Longrightarrow> strict_inv G fails (resolve G policy states c)"
    unfolding resolve_def by blast
qed


lemma strict_inv_D:
  assumes "strict_inv G fails states"
  shows "states n = Succeeded \<Longrightarrow> \<not> fails n"
    and "states n = Failed \<Longrightarrow> fails n"
    and "states n \<noteq> Pending \<Longrightarrow> states n \<noteq> Unreachable \<Longrightarrow>
             p \<in> set (predecessorsOf G n) \<Longrightarrow> states p = Succeeded"
    and "states n = Unreachable \<Longrightarrow>
             \<exists>p \<in> set (predecessorsOf G n). states p = Failed \<or> states p = Unreachable"
  using assms unfolding strict_inv_def by blast+

lemma dispatch_inv:
  assumes pol: "\<forall>n. policy n = ALL_SUCCESS"
  shows "dispatch G policy fails states \<Longrightarrow> strict_inv G fails states"
proof (induction rule: dispatch.induct)
  case frozen
  show ?case by (auto simp: strict_inv_def initial_def)
next
  case (started states n)
  from strict_inv_D(3) [OF started.IH, of n] started.hyps(3)
  show ?case
    by (intro strict_inv_update [OF started.IH]) (auto simp: terminal_def)
next
  case (completed states n)
  from strict_inv_D(3) [OF completed.IH, of n] completed.hyps(3)
  have "strict_inv G fails (states(n := outcome fails n))"
    by (intro strict_inv_update [OF completed.IH]) (auto simp: terminal_def outcome_def)
  then show ?case by (rule resolve_inv [OF pol])
next
  case (propagated states n)
  then show ?case by (intro resolve_inv [OF pol])
qed

lemma in_predecessorsOf [simp]: "p \<in> set (predecessorsOf G n) \<longleftrightarrow> (p, n) \<in> set (Gedges G)"
  by (force simp: predecessorsOf_def)

text \<open>What a terminal node's state must be, given the states of its predecessors.\<close>

lemma terminal_blocked:
  assumes "strict_inv G fails states" and "terminal (states n)"
    and "(p, n) \<in> set (Gedges G)" and "states p \<noteq> Succeeded"
  shows "states n = Unreachable"
  using strict_inv_D(3) [OF assms(1), of n p] assms(2,3,4)
  by (auto simp: terminal_def)

lemma terminal_clear:
  assumes "strict_inv G fails states" and "terminal (states n)"
    and "\<forall>p. (p, n) \<in> set (Gedges G) \<longrightarrow> states p = Succeeded"
  shows "states n = outcome fails n"
  using strict_inv_D(1,2,4) [OF assms(1), of n] assms(2,3)
  by (auto simp: terminal_def outcome_def)

lemma final_states:
  assumes wf: "wf_digraph G" and dag: "is_directed_acyclic_graph G"
    and pol: "\<forall>n. policy n = ALL_SUCCESS"
    and run: "dispatch G policy fails states" and fin: "allTerminal G states"
  shows "n \<in> set (Gnodes G) \<Longrightarrow>
     states n = (if \<exists>a. (a, n) \<in> (set (Gedges G))\<^sup>+ \<and> fails a then Unreachable
                 else outcome fails n)"
proof -
  let ?E = "set (Gedges G)"
  have inv: "strict_inv G fails states" using dispatch_inv [OF pol run] .
  have wfE: "wf ?E" using dag by (simp add: is_directed_acyclic_graph_def finite_acyclic_wf)
  have node: "\<And>p m. (p, m) \<in> ?E \<Longrightarrow> p \<in> set (Gnodes G)"
    using wf by (auto simp: wf_digraph_def)
  show "n \<in> set (Gnodes G) \<Longrightarrow>
     states n = (if \<exists>a. (a, n) \<in> ?E\<^sup>+ \<and> fails a then Unreachable else outcome fails n)"
  proof (induction n rule: wf_induct_rule [OF wfE])
    case (1 n)
    from fin "1.prems" have tm: "terminal (states n)" by (simp add: allTerminal_def)
    show ?case
    proof (cases "\<exists>a. (a, n) \<in> ?E\<^sup>+ \<and> fails a")
      case True
      then obtain a where a: "(a, n) \<in> ?E\<^sup>+" "fails a" by blast
      from a(1) obtain p where p: "(a, p) \<in> ?E\<^sup>*" "(p, n) \<in> ?E"
        by (blast dest: tranclD2)
      have "states p \<noteq> Succeeded"
      proof (cases "a = p")
        case True
        with a(2) strict_inv_D(1) [OF inv, of p] show ?thesis by auto
      next
        case False
        with p(1) have "(a, p) \<in> ?E\<^sup>+" by (auto dest: rtranclD)
        with a(2) "1.IH" [OF p(2) node [OF p(2)]] show ?thesis by auto
      qed
      from terminal_blocked [OF inv tm p(2) this] True show ?thesis by auto
    next
      case False
      have "\<forall>p. (p, n) \<in> ?E \<longrightarrow> states p = Succeeded"
      proof (intro allI impI)
        fix p assume p: "(p, n) \<in> ?E"
        from False p have "\<not> fails p" by blast
        moreover from False p have "\<not> (\<exists>a. (a, p) \<in> ?E\<^sup>+ \<and> fails a)"
          by (meson trancl_into_trancl)
        ultimately show "states p = Succeeded"
          using "1.IH" [OF p node [OF p]] by (simp add: outcome_def)
      qed
      from terminal_clear [OF inv tm this] False show ?thesis by auto
    qed
  qed
qed


lemma replay_dispatch:
  "dispatch G policy fails states \<Longrightarrow> replay G policy fails states es = Some states' \<Longrightarrow>
     dispatch G policy fails states'"
proof (induction es arbitrary: states)
  case Nil
  then show ?case by simp
next
  case (Cons e es)
  show ?case
  proof (cases e)
    case (Start n)
    with Cons.prems(2) have n: "n \<in> set (Gnodes G)" "states n = Ready"
      and r: "replay G policy fails (states(n := Running)) es = Some states'"
      by (auto split: if_splits)
    from Cons.IH [OF dispatch.started [OF Cons.prems(1) n] r] show ?thesis .
  next
    case (Complete n)
    with Cons.prems(2) have n: "n \<in> set (Gnodes G)" "states n = Running"
      and r: "replay G policy fails (resolve G policy (states(n := outcome fails n)) n) es = Some states'"
      by (auto split: if_splits)
    from Cons.IH [OF dispatch.completed [OF Cons.prems(1) n] r] show ?thesis .
  next
    case (Propagate n)
    with Cons.prems(2) have n: "n \<in> set (Gnodes G)" "states n = Unreachable"
      and r: "replay G policy fails (resolve G policy states n) es = Some states'"
      by (auto split: if_splits)
    from Cons.IH [OF dispatch.propagated [OF Cons.prems(1) n] r] show ?thesis .
  qed
qed

lemma set_Gedges_diamond:
  "set (Gedges diamond) = {(0, 1), (0, 2), (1, 3), (2, 3), (1, 4)}"
  by (simp add: diamond_eq)

lemma diamond_terminal:
  "allTerminal diamond states \<Longrightarrow>
     terminal (states 0) \<and> terminal (states 1) \<and> terminal (states 2) \<and>
     terminal (states 3) \<and> terminal (states 4)"
  by (simp add: allTerminal_def diamond_eq)

text \<open>
  \<open>resolve\<close> under \<open>ALL_SUCCESS\<close>, in closed form: the successors that are \<open>Pending\<close> take
  the state \<open>decide\<close> gives them, every other node keeps its state.
\<close>

lemma resolve_successor_strict:
  assumes "policy s = ALL_SUCCESS"
  shows "resolve_successor G policy c states s =
           (if states s = Pending then states(s := decide G states c s) else states)"
  using assms by (auto simp: resolve_successor_def decide_def satisfied_def)

lemma decide_not_terminal_self:
  "states c = Pending \<Longrightarrow> decide G states c c = Ready \<or> decide G states c c = Pending"
  by (simp add: decide_def)

lemma decide_resolve_successor:
  assumes "policy x = ALL_SUCCESS"
  shows "decide G (resolve_successor G policy c states x) c m = decide G states c m"
proof (cases "states x = Pending")
  case False
  then show ?thesis by (simp add: resolve_successor_strict [where policy = policy and s = x, OF assms])
next
  case True
  let ?s1 = "states(x := decide G states c x)"
  have eq: "resolve_successor G policy c states x = ?s1"
    using True by (simp add: resolve_successor_strict [where policy = policy and s = x, OF assms])
  have succ: "\<And>d. (?s1 d = Succeeded) = (states d = Succeeded)"
    using True by (auto simp: decide_def)
  have bad: "(?s1 c = Failed \<or> ?s1 c = Unreachable) = (states c = Failed \<or> states c = Unreachable)"
    using True by (auto simp: decide_def)
  have "decide G ?s1 c m =
      (if ?s1 c = Failed \<or> ?s1 c = Unreachable then Unreachable
       else if \<forall>d \<in> set (predecessorsOf G m). ?s1 d = Succeeded then Ready
       else Pending)"
    by (rule decide_def)
  also have "\<dots> =
      (if states c = Failed \<or> states c = Unreachable then Unreachable
       else if \<forall>d \<in> set (predecessorsOf G m). states d = Succeeded then Ready
       else Pending)"
    by (simp only: succ bad)
  also have "\<dots> = decide G states c m"
    by (rule decide_def [symmetric])
  finally show ?thesis unfolding eq .
qed

lemma foldl_resolve_successor:
  assumes "\<forall>n. policy n = ALL_SUCCESS"
  shows "foldl (resolve_successor G policy c) states ss =
           (\<lambda>m. if m \<in> set ss \<and> states m = Pending then decide G states c m else states m)"
proof (induction ss arbitrary: states)
  case Nil
  show ?case by simp
next
  case (Cons x xs)
  let ?s1 = "resolve_successor G policy c states x"
  have pol: "policy x = ALL_SUCCESS" using assms by simp
  have s1: "?s1 = (if states x = Pending then states(x := decide G states c x) else states)"
    by (rule resolve_successor_strict [where policy = policy and s = x, OF pol])
  have d: "\<And>m. decide G ?s1 c m = decide G states c m"
    by (rule decide_resolve_successor [where policy = policy and x = x, OF pol])
  have "foldl (resolve_successor G policy c) states (x # xs) =
          (\<lambda>m. if m \<in> set xs \<and> ?s1 m = Pending then decide G states c m else ?s1 m)"
    by (simp only: foldl_Cons Cons.IH [of ?s1] d)
  also have "\<dots> = (\<lambda>m. if m \<in> set (x # xs) \<and> states m = Pending
                        then decide G states c m else states m)"
  proof (rule ext)
    fix m
    show "(if m \<in> set xs \<and> ?s1 m = Pending then decide G states c m else ?s1 m) =
          (if m \<in> set (x # xs) \<and> states m = Pending then decide G states c m else states m)"
      unfolding s1 by (cases "m = x") auto
  qed
  finally show ?case .
qed

lemma resolve_apply:
  assumes "\<forall>n. policy n = ALL_SUCCESS"
  shows "resolve G policy states c m =
           (if (c, m) \<in> set (Gedges G) \<and> states m = Pending then decide G states c m
            else states m)"
  unfolding resolve_def foldl_resolve_successor [OF assms]
  by (force simp: successorsOf_def)


lemma decide_cases: "decide G states c s = Unreachable \<or> decide G states c s = Ready \<or> decide G states c s = Pending"
  by (simp add: decide_def)

lemma resolve_Succeeded:
  assumes "\<forall>n. policy n = ALL_SUCCESS"
  shows "(resolve G policy states c x = Succeeded) = (states x = Succeeded)"
  using decide_cases [of G states c x] by (auto simp: resolve_apply [OF assms])

lemma resolve_Failed:
  assumes "\<forall>n. policy n = ALL_SUCCESS"
  shows "(resolve G policy states c x = Failed) = (states x = Failed)"
  using decide_cases [of G states c x] by (auto simp: resolve_apply [OF assms])

lemma resolve_Pending:
  assumes "\<forall>n. policy n = ALL_SUCCESS" and "resolve G policy states c x = Pending"
  shows "states x = Pending \<and> ((c, x) \<in> set (Gedges G) \<longrightarrow> decide G states c x = Pending)"
  using assms(2) by (auto simp: resolve_apply [OF assms(1)] split: if_splits)

lemma resolve_terminal:
  assumes "\<forall>n. policy n = ALL_SUCCESS" and "terminal (states x)"
  shows "resolve G policy states c x = states x"
  using assms(2) by (auto simp: resolve_apply [OF assms(1)] terminal_def)

lemma live_invI:
  assumes "\<And>n. n \<in> set (Gnodes G) \<Longrightarrow> states n = Pending \<Longrightarrow>
             \<exists>p. (p, n) \<in> set (Gedges G) \<and> states p \<noteq> Succeeded"
    and "\<And>n p. n \<in> set (Gnodes G) \<Longrightarrow> states n = Pending \<Longrightarrow>
             (p, n) \<in> set (Gedges G) \<Longrightarrow> states p \<noteq> Failed"
  shows "live_inv G states"
  using assms unfolding live_inv_def by blast

lemma live_invD:
  assumes "live_inv G states" and "n \<in> set (Gnodes G)" and "states n = Pending"
  shows "\<exists>p. (p, n) \<in> set (Gedges G) \<and> states p \<noteq> Succeeded"
    and "(p, n) \<in> set (Gedges G) \<Longrightarrow> states p \<noteq> Failed"
  using assms unfolding live_inv_def by blast+

lemma dispatch_live_inv:
  assumes pol: "\<forall>n. policy n = ALL_SUCCESS"
  shows "dispatch G policy fails states \<Longrightarrow> live_inv G states"
proof (induction rule: dispatch.induct)
  case frozen
  show ?case
  proof (rule live_invI)
    fix n assume "n \<in> set (Gnodes G)" "initial G n = Pending"
    then have "predecessorsOf G n \<noteq> []" by (auto simp: initial_def split: if_splits)
    then obtain p where "p \<in> set (predecessorsOf G n)" by (cases "predecessorsOf G n") auto
    then have "(p, n) \<in> set (Gedges G)" by simp
    moreover have "initial G p \<noteq> Succeeded" by (simp add: initial_def)
    ultimately show "\<exists>p. (p, n) \<in> set (Gedges G) \<and> initial G p \<noteq> Succeeded" by blast
  next
    fix n p show "initial G p \<noteq> Failed" by (simp add: initial_def)
  qed
next
  case (started states m)
  show ?case
  proof (rule live_invI)
    fix n assume n: "n \<in> set (Gnodes G)" "(states(m := Running)) n = Pending"
    then have sn: "states n = Pending" by (auto split: if_splits)
    from live_invD(1) [OF started.IH n(1) sn] obtain p
      where "(p, n) \<in> set (Gedges G)" "states p \<noteq> Succeeded" by blast
    then show "\<exists>p. (p, n) \<in> set (Gedges G) \<and> (states(m := Running)) p \<noteq> Succeeded"
      by (intro exI [of _ p]) auto
  next
    fix n p assume n: "n \<in> set (Gnodes G)" "(states(m := Running)) n = Pending"
      and p: "(p, n) \<in> set (Gedges G)"
    then have sn: "states n = Pending" by (auto split: if_splits)
    from live_invD(2) [OF started.IH n(1) sn p]
    show "(states(m := Running)) p \<noteq> Failed" by auto
  qed
next
  case (completed states m)
  let ?s0 = "states(m := outcome fails m)"
  let ?s' = "resolve G policy ?s0 m"
  have s0m: "?s0 m \<noteq> Pending" by (simp add: outcome_def)
  show ?case
  proof (rule live_invI)
    fix n assume n: "n \<in> set (Gnodes G)" "?s' n = Pending"
    from resolve_Pending [OF pol n(2)]
    have s0n: "?s0 n = Pending" and dec: "(m, n) \<in> set (Gedges G) \<Longrightarrow> decide G ?s0 m n = Pending"
      by blast+
    from s0n s0m have nm: "n \<noteq> m" by auto
    with s0n have sn: "states n = Pending" by simp
    show "\<exists>p. (p, n) \<in> set (Gedges G) \<and> ?s' p \<noteq> Succeeded"
    proof (cases "(m, n) \<in> set (Gedges G)")
      case True
      from dec [OF True] obtain d where "d \<in> set (predecessorsOf G n)" "?s0 d \<noteq> Succeeded"
        unfolding decide_def by (auto split: if_splits)
      then show ?thesis
        by (intro exI [of _ d]) (simp add: resolve_Succeeded [OF pol])
    next
      case False
      from live_invD(1) [OF completed.IH n(1) sn] obtain p
        where p: "(p, n) \<in> set (Gedges G)" "states p \<noteq> Succeeded" by blast
      with False have "p \<noteq> m" by auto
      with p show ?thesis
        by (intro exI [of _ p]) (simp add: resolve_Succeeded [OF pol])
    qed
  next
    fix n p assume n: "n \<in> set (Gnodes G)" "?s' n = Pending" and p: "(p, n) \<in> set (Gedges G)"
    from resolve_Pending [OF pol n(2)]
    have s0n: "?s0 n = Pending" and dec: "(m, n) \<in> set (Gedges G) \<Longrightarrow> decide G ?s0 m n = Pending"
      by blast+
    from s0n s0m have nm: "n \<noteq> m" by auto
    with s0n have sn: "states n = Pending" by simp
    show "?s' p \<noteq> Failed"
    proof (cases "p = m")
      case True
      with p dec have "decide G ?s0 m n = Pending" by simp
      then have "?s0 m \<noteq> Failed" unfolding decide_def by (auto split: if_splits)
      with True show ?thesis by (simp add: resolve_Failed [OF pol])
    next
      case False
      with live_invD(2) [OF completed.IH n(1) sn p] show ?thesis
        by (simp add: resolve_Failed [OF pol])
    qed
  qed
next
  case (propagated states u)
  show ?case
  proof (rule live_invI)
    fix n assume n: "n \<in> set (Gnodes G)" "resolve G policy states u n = Pending"
    from resolve_Pending [OF pol n(2)] have sn: "states n = Pending" by blast
    from live_invD(1) [OF propagated.IH n(1) sn] obtain p
      where "(p, n) \<in> set (Gedges G)" "states p \<noteq> Succeeded" by blast
    then show "\<exists>p. (p, n) \<in> set (Gedges G) \<and> resolve G policy states u p \<noteq> Succeeded"
      by (intro exI [of _ p]) (simp add: resolve_Succeeded [OF pol])
  next
    fix n p assume n: "n \<in> set (Gnodes G)" "resolve G policy states u n = Pending"
      and p: "(p, n) \<in> set (Gedges G)"
    from resolve_Pending [OF pol n(2)] have sn: "states n = Pending" by blast
    from live_invD(2) [OF propagated.IH n(1) sn p]
    show "resolve G policy states u p \<noteq> Failed" by (simp add: resolve_Failed [OF pol])
  qed
qed


text \<open>
  Every run can be driven to completion: from a tracker that is not all-terminal some
  events make one more node terminal and change no terminal node.
\<close>

lemma replay_append:
  "replay G policy fails states (es @ es') =
     (case replay G policy fails states es of
        None \<Rightarrow> None
      | Some states' \<Rightarrow> replay G policy fails states' es')"
proof (induction es arbitrary: states)
  case Nil
  show ?case by simp
next
  case (Cons e es)
  then show ?case by (cases e) (simp_all add: fun_upd_def)
qed

lemma complete_progress:
  assumes pol: "\<forall>n. policy n = ALL_SUCCESS" and "states n = Running"
  shows "terminal (resolve G policy (states(n := outcome fails n)) n n)"
    and "terminal (states x) \<Longrightarrow> resolve G policy (states(n := outcome fails n)) n x = states x"
proof -
  have "terminal ((states(n := outcome fails n)) n)" by (simp add: terminal_def outcome_def)
  from resolve_terminal [where states = "states(n := outcome fails n)" and x = n, OF pol this]
  show "terminal (resolve G policy (states(n := outcome fails n)) n n)"
    by (simp add: terminal_def outcome_def)
  assume x: "terminal (states x)"
  with assms(2) have "x \<noteq> n" by (auto simp: terminal_def)
  with x have "terminal ((states(n := outcome fails n)) x)" by simp
  from resolve_terminal [where states = "states(n := outcome fails n)" and x = x, OF pol this]
    \<open>x \<noteq> n\<close>
  show "resolve G policy (states(n := outcome fails n)) n x = states x" by simp
qed

lemma progress:
  assumes wf: "wf_digraph G" and dag: "is_directed_acyclic_graph G"
    and pol: "\<forall>n. policy n = ALL_SUCCESS"
    and run: "dispatch G policy fails states" and nt: "\<not> allTerminal G states"
  shows "\<exists>es states'. replay G policy fails states es = Some states' \<and>
           (\<forall>x. terminal (states x) \<longrightarrow> states' x = states x) \<and>
           (\<exists>n \<in> set (Gnodes G). \<not> terminal (states n) \<and> terminal (states' n))"
proof -
  consider (running) n where "n \<in> set (Gnodes G)" "states n = Running"
    | (ready) n where "n \<in> set (Gnodes G)" "states n = Ready"
    | (waiting) "\<forall>n \<in> set (Gnodes G). states n \<noteq> Running \<and> states n \<noteq> Ready"
    by blast
  then show ?thesis
  proof cases
    case running
    let ?s' = "resolve G policy (states(n := outcome fails n)) n"
    have "replay G policy fails states [Complete n] = Some ?s'"
      using running by simp
    moreover have "\<forall>x. terminal (states x) \<longrightarrow> ?s' x = states x"
      using complete_progress(2) [where states = states and n = n, OF pol running(2)] by blast
    moreover have "\<not> terminal (states n) \<and> terminal (?s' n)"
      using complete_progress(1) [where states = states and n = n, OF pol running(2)] running(2)
      by (simp add: terminal_def)
    ultimately show ?thesis using running(1) by blast
  next
    case ready
    let ?s1 = "states(n := Running)"
    let ?s' = "resolve G policy (?s1(n := outcome fails n)) n"
    have r1: "?s1 n = Running" by simp
    have "replay G policy fails states [Start n, Complete n] = Some ?s'"
      using ready by simp
    moreover have "\<forall>x. terminal (states x) \<longrightarrow> ?s' x = states x"
    proof (intro allI impI)
      fix x assume x: "terminal (states x)"
      with ready(2) have "x \<noteq> n" by (auto simp: terminal_def)
      with x have "terminal (?s1 x)" by simp
      from complete_progress(2) [where states = ?s1 and n = n and x = x, OF pol r1 this] \<open>x \<noteq> n\<close>
      show "?s' x = states x" by simp
    qed
    moreover have "\<not> terminal (states n) \<and> terminal (?s' n)"
      using complete_progress(1) [where states = ?s1 and n = n, OF pol r1] ready(2)
      by (simp add: terminal_def)
    ultimately show ?thesis using ready(1) by blast
  next
    case waiting
    from nt obtain x where x: "x \<in> set (Gnodes G)" "\<not> terminal (states x)"
      by (auto simp: allTerminal_def)
    with waiting have "states x = Pending"
      by (cases "states x") (auto simp: terminal_def)
    with x have xQ: "x \<in> {n \<in> set (Gnodes G). states n = Pending}" by simp
    have "wf (set (Gedges G))"
      using dag by (simp add: is_directed_acyclic_graph_def finite_acyclic_wf)
    from wfE_min [OF this xQ] obtain z
      where z: "z \<in> set (Gnodes G)" "states z = Pending"
        and zmin: "\<And>y. (y, z) \<in> set (Gedges G) \<Longrightarrow> y \<notin> {n \<in> set (Gnodes G). states n = Pending}"
      by blast
    have inv: "live_inv G states" using dispatch_live_inv [OF pol run] .
    from live_invD(1) [OF inv z] obtain p
      where p: "(p, z) \<in> set (Gedges G)" "states p \<noteq> Succeeded" by blast
    from p(1) wf have pn: "p \<in> set (Gnodes G)" by (auto simp: wf_digraph_def)
    from zmin [OF p(1)] pn have "states p \<noteq> Pending" by simp
    moreover from waiting pn have "states p \<noteq> Running" "states p \<noteq> Ready" by auto
    moreover from live_invD(2) [OF inv z p(1)] have "states p \<noteq> Failed" .
    ultimately have pu: "states p = Unreachable" using p(2) by (cases "states p") auto
    let ?s' = "resolve G policy states p"
    have "replay G policy fails states [Propagate p] = Some ?s'"
      using pn pu by simp
    moreover have "\<forall>x. terminal (states x) \<longrightarrow> ?s' x = states x"
      using resolve_terminal [where states = states, OF pol] by blast
    moreover have "?s' z = Unreachable"
      using p(1) z(2) pu by (simp add: resolve_apply [OF pol] decide_def)
    then have "\<not> terminal (states z) \<and> terminal (?s' z)"
      using z(2) by (simp add: terminal_def)
    ultimately show ?thesis using z(1) by blast
  qed
qed

lemma dispatch_completes:
  assumes wf: "wf_digraph G" and dag: "is_directed_acyclic_graph G"
    and pol: "\<forall>n. policy n = ALL_SUCCESS"
  shows "dispatch G policy fails states \<Longrightarrow>
     \<exists>es states'. replay G policy fails states es = Some states' \<and> allTerminal G states'"
proof (induction "card {n \<in> set (Gnodes G). \<not> terminal (states n)}"
    arbitrary: states rule: less_induct)
  case less
  show ?case
  proof (cases "allTerminal G states")
    case True
    then have "replay G policy fails states [] = Some states \<and> allTerminal G states" by simp
    then show ?thesis by blast
  next
    case False
    from progress [OF wf dag pol less.prems False] obtain es s1 n
      where r: "replay G policy fails states es = Some s1"
        and keep: "\<And>x. terminal (states x) \<Longrightarrow> s1 x = states x"
        and n: "n \<in> set (Gnodes G)" "\<not> terminal (states n)" "terminal (s1 n)"
      by blast
    have "{n \<in> set (Gnodes G). \<not> terminal (s1 n)} \<subset> {n \<in> set (Gnodes G). \<not> terminal (states n)}"
      using keep n by auto
    then have "card {n \<in> set (Gnodes G). \<not> terminal (s1 n)}
             < card {n \<in> set (Gnodes G). \<not> terminal (states n)}"
      by (intro psubset_card_mono) simp_all
    moreover have "dispatch G policy fails s1"
      using replay_dispatch [OF less.prems r] .
    ultimately obtain es' s2 where "replay G policy fails s1 es' = Some s2" "allTerminal G s2"
      using less.hyps by blast
    with r have "replay G policy fails states (es @ es') = Some s2 \<and> allTerminal G s2"
      by (simp add: replay_append)
    then show ?thesis by blast
  qed
qed

text \<open>
  Where an all-terminal run of an acyclic graph under \<open>ALL_SUCCESS\<close> ends, in general and
  for the sample graph.
\<close>

lemma failure_propagation_final:
  assumes pol: "\<forall>n. policy n = ALL_SUCCESS"
  shows
   "(wf_digraph G \<and> is_directed_acyclic_graph G \<and>
       dispatch G policy fails states \<and> allTerminal G states \<longrightarrow>
       (\<forall>f d. states f = Failed \<and> (f, d) \<in> (set (Gedges G))\<^sup>+ \<longrightarrow> states d = Unreachable) \<and>
       (\<forall>n \<in> set (Gnodes G).
           (\<forall>a. (a, n) \<in> (set (Gedges G))\<^sup>+ \<longrightarrow> \<not> fails a) \<longrightarrow> states n = outcome fails n))
    \<and> (dispatch diamond policy failsC statesC \<and> allTerminal diamond statesC \<and>
         failsC 1 \<and> \<not> failsC 0 \<and> \<not> failsC 2 \<longrightarrow>
         statesC 1 = Failed \<and> statesC 2 = Succeeded \<and>
         statesC 3 = Unreachable \<and> statesC 4 = Unreachable)
    \<and> (dispatch diamond policy failsD statesD \<and> allTerminal diamond statesD \<and>
         failsD 2 \<and> \<not> failsD 0 \<and> \<not> failsD 1 \<and> \<not> failsD 4 \<longrightarrow>
         statesD 2 = Failed \<and> statesD 3 = Unreachable \<and> statesD 4 = Succeeded)"
proof (intro conjI impI)
  assume a: "wf_digraph G \<and> is_directed_acyclic_graph G \<and>
       dispatch G policy fails states \<and> allTerminal G states"
  then have fs: "\<And>n. n \<in> set (Gnodes G) \<Longrightarrow>
     states n = (if \<exists>a. (a, n) \<in> (set (Gedges G))\<^sup>+ \<and> fails a then Unreachable
                 else outcome fails n)"
    using final_states [OF _ _ pol, of G fails states] by blast
  from a have inv: "strict_inv G fails states" using dispatch_inv [OF pol] by blast
  show "\<forall>f d. states f = Failed \<and> (f, d) \<in> (set (Gedges G))\<^sup>+ \<longrightarrow> states d = Unreachable"
  proof (intro allI impI)
    fix f d assume fd: "states f = Failed \<and> (f, d) \<in> (set (Gedges G))\<^sup>+"
    then have "fails f" using strict_inv_D(2) [OF inv] by blast
    moreover from fd obtain p where "(p, d) \<in> set (Gedges G)" by (blast dest: tranclD2)
    then have "d \<in> set (Gnodes G)" using a by (auto simp: wf_digraph_def)
    ultimately show "states d = Unreachable" using fs [of d] fd by auto
  qed
  show "\<forall>n \<in> set (Gnodes G).
           (\<forall>a. (a, n) \<in> (set (Gedges G))\<^sup>+ \<longrightarrow> \<not> fails a) \<longrightarrow> states n = outcome fails n"
    using fs by auto
next
  assume a: "dispatch diamond policy failsC statesC \<and> allTerminal diamond statesC \<and>
         failsC 1 \<and> \<not> failsC 0 \<and> \<not> failsC 2"
  then have inv: "strict_inv diamond failsC statesC" using dispatch_inv [OF pol] by blast
  from a have tm: "terminal (statesC 0)" "terminal (statesC 1)" "terminal (statesC 2)"
    "terminal (statesC 3)" "terminal (statesC 4)"
    using diamond_terminal by blast+
  have 0: "statesC 0 = Succeeded"
    using terminal_clear [OF inv tm(1)] a by (simp add: set_Gedges_diamond outcome_def)
  have 1: "statesC 1 = Failed"
    using terminal_clear [OF inv tm(2)] a 0 by (simp add: set_Gedges_diamond outcome_def)
  have 2: "statesC 2 = Succeeded"
    using terminal_clear [OF inv tm(3)] a 0 by (simp add: set_Gedges_diamond outcome_def)
  have 3: "statesC 3 = Unreachable"
    using terminal_blocked [OF inv tm(4), of 1] 1 by (simp add: set_Gedges_diamond)
  have 4: "statesC 4 = Unreachable"
    using terminal_blocked [OF inv tm(5), of 1] 1 by (simp add: set_Gedges_diamond)
  from 1 2 3 4 show "statesC 1 = Failed" "statesC 2 = Succeeded"
    "statesC 3 = Unreachable" "statesC 4 = Unreachable" .
next
  assume a: "dispatch diamond policy failsD statesD \<and> allTerminal diamond statesD \<and>
         failsD 2 \<and> \<not> failsD 0 \<and> \<not> failsD 1 \<and> \<not> failsD 4"
  then have inv: "strict_inv diamond failsD statesD" using dispatch_inv [OF pol] by blast
  from a have tm: "terminal (statesD 0)" "terminal (statesD 1)" "terminal (statesD 2)"
    "terminal (statesD 3)" "terminal (statesD 4)"
    using diamond_terminal by blast+
  have 0: "statesD 0 = Succeeded"
    using terminal_clear [OF inv tm(1)] a by (simp add: set_Gedges_diamond outcome_def)
  have 1: "statesD 1 = Succeeded"
    using terminal_clear [OF inv tm(2)] a 0 by (simp add: set_Gedges_diamond outcome_def)
  have 2: "statesD 2 = Failed"
    using terminal_clear [OF inv tm(3)] a 0 by (simp add: set_Gedges_diamond outcome_def)
  have 3: "statesD 3 = Unreachable"
    using terminal_blocked [OF inv tm(4), of 2] 2 by (simp add: set_Gedges_diamond)
  have 4: "statesD 4 = Succeeded"
    using terminal_clear [OF inv tm(5)] a 1 by (simp add: set_Gedges_diamond outcome_def)
  from 2 3 4 show "statesD 2 = Failed" "statesD 3 = Unreachable" "statesD 4 = Succeeded" .
qed

text \<open>
  Claim C3. In the sample graph with every node under \<open>ALL_SUCCESS\<close>, when node \<open>0\<close>
  fails every run that reaches \<open>allTerminal\<close> ends with \<open>0\<close> \<open>Failed\<close> and \<open>1\<close>, \<open>2\<close>,
  \<open>3\<close> and \<open>4\<close> \<open>Unreachable\<close>.
\<close>

theorem root_failure:
  assumes pol: "\<forall>n. policy n = ALL_SUCCESS" and f: "fails 0"
    and run: "dispatch diamond policy fails states" and fin: "allTerminal diamond states"
  shows "states 0 = Failed \<and> states 1 = Unreachable \<and> states 2 = Unreachable \<and>
         states 3 = Unreachable \<and> states 4 = Unreachable"
proof -
  have inv: "strict_inv diamond fails states" using dispatch_inv [OF pol run] .
  from fin have tm: "terminal (states 0)" "terminal (states 1)" "terminal (states 2)"
    "terminal (states 3)" "terminal (states 4)"
    using diamond_terminal by blast+
  have 0: "states 0 = Failed"
    using terminal_clear [OF inv tm(1)] f by (simp add: set_Gedges_diamond outcome_def)
  have 1: "states 1 = Unreachable"
    using terminal_blocked [OF inv tm(2), of 0] 0 by (simp add: set_Gedges_diamond)
  have 2: "states 2 = Unreachable"
    using terminal_blocked [OF inv tm(3), of 0] 0 by (simp add: set_Gedges_diamond)
  have 3: "states 3 = Unreachable"
    using terminal_blocked [OF inv tm(4), of 1] 1 by (simp add: set_Gedges_diamond)
  have 4: "states 4 = Unreachable"
    using terminal_blocked [OF inv tm(5), of 1] 1 by (simp add: set_Gedges_diamond)
  from 0 1 2 3 4 show ?thesis by simp
qed

lemma replay_B:
  "case replay diamond strict (only 0) (initial diamond) [Start 0, Complete 0, Propagate 1] of
     None \<Rightarrow> False
   | Some states \<Rightarrow> map states [0, 1, 2, 3, 4]
        = [Failed, Unreachable, Unreachable, Unreachable, Unreachable]"
  by code_simp

lemma replay_C:
  "case replay diamond strict (only 1) (initial diamond)
          [Start 0, Complete 0, Start 1, Complete 1, Start 2, Complete 2] of
     None \<Rightarrow> False
   | Some states \<Rightarrow> map states [0, 1, 2, 3, 4]
        = [Succeeded, Failed, Succeeded, Unreachable, Unreachable]"
  by code_simp

lemma replay_D:
  "case replay diamond strict (only 2) (initial diamond)
          [Start 0, Complete 0, Start 2, Start 1, Complete 2, Complete 1, Start 4, Complete 4] of
     None \<Rightarrow> False
   | Some states \<Rightarrow> map states [0, 1, 2, 3, 4]
        = [Succeeded, Succeeded, Failed, Unreachable, Succeeded]"
  by code_simp

theorem root_failure_witness:
  "\<exists>states. dispatch diamond strict (only 0) states \<and> allTerminal diamond states \<and> only 0 0 \<and>
      states 0 = Failed \<and> states 1 = Unreachable \<and> states 2 = Unreachable \<and>
      states 3 = Unreachable \<and> states 4 = Unreachable"
proof -
  from replay_B obtain states where
    r: "replay diamond strict (only 0) (initial diamond) [Start 0, Complete 0, Propagate 1] = Some states"
    and v: "map states [0, 1, 2, 3, 4] = [Failed, Unreachable, Unreachable, Unreachable, Unreachable]"
    by (auto split: option.splits)
  have run: "dispatch diamond strict (only 0) states"
    using replay_dispatch [OF dispatch.frozen r] .
  have fin: "allTerminal diamond states"
    using v by (simp add: allTerminal_def diamond_eq terminal_def)
  have pol: "\<forall>n. strict n = ALL_SUCCESS" by (simp add: strict_def)
  have f: "only 0 0" by (simp add: only_def)
  from root_failure [OF pol f run fin] run fin f show ?thesis by blast
qed

lemma replay_E:
  "case replay diamond strict (only 4) (initial diamond)
          [Start 0, Complete 0, Start 1, Complete 1, Start 2, Complete 2,
           Start 3, Start 4, Complete 3, Complete 4] of
     None \<Rightarrow> False
   | Some states \<Rightarrow> map states [0, 1, 2, 3, 4]
        = [Succeeded, Succeeded, Succeeded, Succeeded, Failed]"
  by code_simp

lemma diamond_two_hops: "(0, 3) \<in> (set (Gedges diamond))\<^sup>+"
proof -
  have "(0, 1) \<in> set (Gedges diamond)" "(1, 3) \<in> set (Gedges diamond)"
    by (simp_all add: set_Gedges_diamond)
  then show ?thesis by (meson r_into_trancl trancl_trans)
qed

lemma diamond_no_successor_of_4: "(4, n) \<notin> (set (Gedges diamond))\<^sup>+"
proof
  assume "(4, n) \<in> (set (Gedges diamond))\<^sup>+"
  then obtain y where "(4, y) \<in> set (Gedges diamond)" by (blast dest: tranclD)
  then show False by (simp add: set_Gedges_diamond)
qed

text \<open>
  Claim C2. Under \<open>ALL_SUCCESS\<close>, every run of an acyclic graph can be driven to
  \<open>allTerminal\<close>, and in every run that is all-terminal: every strict descendant of a
  failed node is \<open>Unreachable\<close>, and a node that depends on no failing node is
  unaffected, its state is the outcome of its own job (\<open>Succeeded\<close> when the job
  succeeds). In the sample graph: when \<open>1\<close> fails, \<open>2\<close> ends \<open>Succeeded\<close> and \<open>3\<close> and
  \<open>4\<close> end \<open>Unreachable\<close>; when \<open>2\<close> fails, \<open>3\<close> ends \<open>Unreachable\<close> and \<open>4\<close> ends
  \<open>Succeeded\<close>.
\<close>

theorem failure_propagation:
  assumes pol: "\<forall>n. policy n = ALL_SUCCESS"
  shows
   "(wf_digraph G \<and> is_directed_acyclic_graph G \<and> dispatch G policy fails states0 \<longrightarrow>
       (\<exists>es states'. replay G policy fails states0 es = Some states' \<and>
           dispatch G policy fails states' \<and> allTerminal G states'))
    \<and> (wf_digraph G \<and> is_directed_acyclic_graph G \<and>
       dispatch G policy fails states \<and> allTerminal G states \<longrightarrow>
       (\<forall>f d. states f = Failed \<and> (f, d) \<in> (set (Gedges G))\<^sup>+ \<longrightarrow> states d = Unreachable) \<and>
       (\<forall>n \<in> set (Gnodes G).
           (\<forall>a. (a, n) \<in> (set (Gedges G))\<^sup>+ \<longrightarrow> \<not> fails a) \<longrightarrow> states n = outcome fails n))
    \<and> (dispatch diamond policy failsC statesC \<and> allTerminal diamond statesC \<and>
         failsC 1 \<and> \<not> failsC 0 \<and> \<not> failsC 2 \<longrightarrow>
         statesC 1 = Failed \<and> statesC 2 = Succeeded \<and>
         statesC 3 = Unreachable \<and> statesC 4 = Unreachable)
    \<and> (dispatch diamond policy failsD statesD \<and> allTerminal diamond statesD \<and>
         failsD 2 \<and> \<not> failsD 0 \<and> \<not> failsD 1 \<and> \<not> failsD 4 \<longrightarrow>
         statesD 2 = Failed \<and> statesD 3 = Unreachable \<and> statesD 4 = Succeeded)"
proof -
  have live: "wf_digraph G \<and> is_directed_acyclic_graph G \<and> dispatch G policy fails states0 \<longrightarrow>
       (\<exists>es states'. replay G policy fails states0 es = Some states' \<and>
           dispatch G policy fails states' \<and> allTerminal G states')"
  proof
    assume a: "wf_digraph G \<and> is_directed_acyclic_graph G \<and> dispatch G policy fails states0"
    then obtain es states' where r: "replay G policy fails states0 es = Some states'"
      and t: "allTerminal G states'"
      using dispatch_completes [OF _ _ pol, of G fails states0] by blast
    from a r have "dispatch G policy fails states'" by (blast intro: replay_dispatch)
    with r t show "\<exists>es states'. replay G policy fails states0 es = Some states' \<and>
           dispatch G policy fails states' \<and> allTerminal G states'" by blast
  qed
  from live failure_propagation_final [OF pol, of G fails states failsC statesC failsD statesD]
  show ?thesis by blast
qed

theorem failure_propagation_witness:
  "(\<exists>es states. replay diamond strict (only 1) (initial diamond) es = Some states \<and>
      dispatch diamond strict (only 1) states \<and> allTerminal diamond states)
   \<and> (\<exists>states. dispatch diamond strict (only 0) states \<and> allTerminal diamond states \<and>
      states 0 = Failed \<and> (0, 3) \<in> (set (Gedges diamond))\<^sup>+ \<and> states 3 = Unreachable)
   \<and> (\<exists>states. dispatch diamond strict (only 4) states \<and> allTerminal diamond states \<and>
      states 4 = Failed \<and> states 3 = Succeeded \<and> outcome (only 4) 3 = Succeeded)
   \<and> (\<exists>states. dispatch diamond strict (only 1) states \<and> allTerminal diamond states \<and>
      states 1 = Failed \<and> states 2 = Succeeded \<and> states 3 = Unreachable \<and>
      states 4 = Unreachable)
   \<and> (\<exists>states. dispatch diamond strict (only 2) states \<and> allTerminal diamond states \<and>
      states 2 = Failed \<and> states 3 = Unreachable \<and> states 4 = Succeeded)"
proof -
  have pol: "\<forall>n. strict n = ALL_SUCCESS" by (simp add: strict_def)
  note wd = wf_diamond dag_diamond
  from replay_B obtain sB where
    rB: "replay diamond strict (only 0) (initial diamond) [Start 0, Complete 0, Propagate 1] = Some sB"
    and vB: "map sB [0, 1, 2, 3, 4] = [Failed, Unreachable, Unreachable, Unreachable, Unreachable]"
    by (auto split: option.splits)
  from replay_C obtain sC where
    rC: "replay diamond strict (only 1) (initial diamond)
          [Start 0, Complete 0, Start 1, Complete 1, Start 2, Complete 2] = Some sC"
    and vC: "map sC [0, 1, 2, 3, 4] = [Succeeded, Failed, Succeeded, Unreachable, Unreachable]"
    by (auto split: option.splits)
  from replay_D obtain sD where
    rD: "replay diamond strict (only 2) (initial diamond)
          [Start 0, Complete 0, Start 2, Start 1, Complete 2, Complete 1, Start 4, Complete 4] = Some sD"
    and vD: "map sD [0, 1, 2, 3, 4] = [Succeeded, Succeeded, Failed, Unreachable, Succeeded]"
    by (auto split: option.splits)
  from replay_E obtain sE where
    rE: "replay diamond strict (only 4) (initial diamond)
          [Start 0, Complete 0, Start 1, Complete 1, Start 2, Complete 2,
           Start 3, Start 4, Complete 3, Complete 4] = Some sE"
    and vE: "map sE [0, 1, 2, 3, 4] = [Succeeded, Succeeded, Succeeded, Succeeded, Failed]"
    by (auto split: option.splits)
  have run: "dispatch diamond strict (only 0) sB" "dispatch diamond strict (only 1) sC"
    "dispatch diamond strict (only 2) sD" "dispatch diamond strict (only 4) sE"
    using replay_dispatch [OF dispatch.frozen rB] replay_dispatch [OF dispatch.frozen rC]
      replay_dispatch [OF dispatch.frozen rD] replay_dispatch [OF dispatch.frozen rE]
    by blast+
  have fin: "allTerminal diamond sB" "allTerminal diamond sC" "allTerminal diamond sD"
    "allTerminal diamond sE"
    using vB vC vD vE by (simp_all add: allTerminal_def diamond_eq terminal_def)
  have live: "\<exists>es states. replay diamond strict (only 1) (initial diamond) es = Some states \<and>
      dispatch diamond strict (only 1) states \<and> allTerminal diamond states"
    using failure_propagation [OF pol, of diamond "only 1" "initial diamond"] wd
      dispatch.frozen [of diamond strict "only 1"]
    by blast
  have B: "sB 0 = Failed \<and> sB 3 = Unreachable"
    using failure_propagation [OF pol, of diamond "only 0" _ sB] wd run(1) fin(1)
      diamond_two_hops vB
    by auto
  have E: "sE 4 = Failed \<and> sE 3 = Succeeded \<and> outcome (only 4) 3 = Succeeded"
  proof -
    have "\<forall>a. (a, 3) \<in> (set (Gedges diamond))\<^sup>+ \<longrightarrow> \<not> only 4 a"
      using diamond_no_successor_of_4 by (auto simp: only_def)
    moreover have "3 \<in> set (Gnodes diamond)" by (simp add: diamond_eq)
    ultimately have "sE 3 = outcome (only 4) 3"
      using failure_propagation [OF pol, of diamond "only 4" _ sE] wd run(4) fin(4)
      by blast
    with vE show ?thesis by (simp add: outcome_def only_def)
  qed
  have CD: "(sC 1 = Failed \<and> sC 2 = Succeeded \<and> sC 3 = Unreachable \<and> sC 4 = Unreachable)
      \<and> (sD 2 = Failed \<and> sD 3 = Unreachable \<and> sD 4 = Succeeded)"
    using failure_propagation [OF pol, of _ _ _ _ "only 1" sC "only 2" sD] run(2,3) fin(2,3)
    by (simp add: only_def)
  from live B E CD run fin diamond_two_hops show ?thesis by blast
qed

section \<open>The order of a dependency in a trace\<close>


















end
